theory Spec2Isabelle
  imports Complex_Main "HOL-Library.Sublist"
begin

section \<open>Python strings\<close>

text \<open>
  A Python \<open>str\<close> is modelled as a \<^typ>\<open>string\<close>: the list of its code points, each
  below 256. Characters that cannot be written inside an Isabelle literal are named.
\<close>

definition bslash :: char where
  "bslash = CHR 0x5C"

definition dquote :: char where
  "dquote = CHR 0x22"

definition squote :: char where
  "squote = CHR 0x27"

text \<open>
  \<open>s.replace(old, new)\<close>: every non-overlapping occurrence of \<open>old\<close>, found from the
  left, is replaced by \<open>new\<close>; an empty \<open>old\<close> matches before every character and at
  the end.
\<close>

function str_replace :: "string \<Rightarrow> string \<Rightarrow> string \<Rightarrow> string" where
  "str_replace old new [] = (if old = [] then new else [])"
| "str_replace old new (x # xs) =
     (if old = [] then new @ x # str_replace old new xs
      else if prefix old (x # xs)
        then new @ str_replace old new (drop (length old) (x # xs))
        else x # str_replace old new xs)"
  by pat_completeness auto
termination
  by (relation "measure (\<lambda>(old, new, s). length s)") auto

section \<open>The Markdown escaping pass (app.py, lines 135-148)\<close>

definition escaped_message :: "string \<Rightarrow> string" where
  "escaped_message message =
     str_replace ''!'' [bslash, CHR ''!'']
      (str_replace ''.'' [bslash, CHR ''.'']
       (str_replace ''-'' [bslash, CHR ''-'']
        (str_replace ''+'' [bslash, CHR ''+'']
         (str_replace ''#'' [bslash, CHR ''#'']
          (str_replace '')'' [bslash, CHR '')'']
           (str_replace ''('' [bslash, CHR ''('']
            (str_replace '']'' [bslash, CHR '']'']
             (str_replace ''['' [bslash, CHR ''['']
              (str_replace ''_'' [bslash, CHR ''_'']
               (str_replace ''*'' [bslash, CHR ''*'']
                (str_replace ''$'' [bslash, CHR ''$''] message)))))))))))"

section \<open>Python values, exceptions and dictionaries\<close>

text \<open>
  The exceptions the script can meet. \<open>Unsupported\<close> and \<open>OutOfFuel\<close> are not Python
  exceptions: the first marks an input that uses a feature of the JSON decoder left
  out of this development (fractional numbers and exponents, the literals NaN and
  Infinity, \<open>\u\<close> escapes above 00FF), and nothing is claimed about such an input;
  the second marks a decoder run that used up its budget, which \<open>loads\<close> never
  does (lemma \<open>loads_budget\<close>).
\<close>

datatype py_error =
    JSONDecodeError | TypeError | KeyError | IndexError | AttributeError
  | RecursionError | ValueError | OSError | APIError | Unsupported | OutOfFuel

text \<open>
  The values \<open>json.loads\<close> builds and \<open>json.dumps\<close> accepts, floats left out. A
  \<open>dict\<close> is an association list in insertion order; its keys are strings.
\<close>

datatype pyval =
    PNone
  | PBool bool
  | PInt int
  | PStr string
  | PList "pyval list"
  | PDict "(string \<times> pyval) list"

definition bindE :: "'e + 'a \<Rightarrow> ('a \<Rightarrow> 'e + 'b) \<Rightarrow> 'e + 'b" where
  "bindE m f = (case m of Inl e \<Rightarrow> Inl e | Inr x \<Rightarrow> f x)"

text \<open>
  \<open>d[k] = v\<close>: an existing key keeps its position and takes the new value, a new key
  goes to the end.
\<close>

fun dict_set :: "('k \<times> 'v) list \<Rightarrow> 'k \<Rightarrow> 'v \<Rightarrow> ('k \<times> 'v) list" where
  "dict_set [] k v = [(k, v)]"
| "dict_set (p # ps) k v = (if fst p = k then (k, v) # ps else p # dict_set ps k v)"

text \<open>\<open>dict(pairs)\<close>: the pairs are stored one after the other.\<close>

fun dict_of_pairs :: "('k \<times> 'v) list \<Rightarrow> ('k \<times> 'v) list \<Rightarrow> ('k \<times> 'v) list" where
  "dict_of_pairs d [] = d"
| "dict_of_pairs d ((k, v) # ps) = dict_of_pairs (dict_set d k v) ps"

text \<open>\<open>sep.join(xs)\<close>.\<close>

fun str_join :: "string \<Rightarrow> string list \<Rightarrow> string" where
  "str_join sep [] = []"
| "str_join sep [x] = x"
| "str_join sep (x # y # ys) = x @ sep @ str_join sep (y # ys)"

text \<open>\<open>sub in s\<close> for two strings: \<open>sub\<close> occurs in \<open>s\<close> as a contiguous piece.\<close>

fun str_contains :: "string \<Rightarrow> string \<Rightarrow> bool" where
  "str_contains sub [] = (sub = [])"
| "str_contains sub (x # xs) = (prefix sub (x # xs) \<or> str_contains sub xs)"

subsection \<open>Decimal numerals\<close>

definition digit_char :: "nat \<Rightarrow> char" where
  "digit_char d = char_of (48 + d)"

definition is_digit :: "char \<Rightarrow> bool" where
  "is_digit c = (48 \<le> (of_char c :: nat) \<and> (of_char c :: nat) \<le> 57)"

definition digit_val :: "char \<Rightarrow> nat" where
  "digit_val c = of_char c - 48"

function str_of_nat :: "nat \<Rightarrow> string" where
  "str_of_nat n = (if n < 10 then [digit_char n] else str_of_nat (n div 10) @ [digit_char (n mod 10)])"
  by pat_completeness auto
termination
  by (relation "measure id") auto

declare str_of_nat.simps [simp del]

definition str_of_int :: "int \<Rightarrow> string" where
  "str_of_int i = (if i < 0 then CHR ''-'' # str_of_nat (nat (- i)) else str_of_nat (nat i))"

definition nat_of_digits :: "string \<Rightarrow> nat" where
  "nat_of_digits ds = foldl (\<lambda>acc d. 10 * acc + digit_val d) 0 ds"

definition hex_char :: "nat \<Rightarrow> char" where
  "hex_char d = (if d < 10 then char_of (48 + d) else char_of (87 + d))"

definition hex_val :: "char \<Rightarrow> nat option" where
  "hex_val c =
     (let n = (of_char c :: nat) in
      if 48 \<le> n \<and> n \<le> 57 then Some (n - 48)
      else if 65 \<le> n \<and> n \<le> 70 then Some (n - 55)
      else if 97 \<le> n \<and> n \<le> 102 then Some (n - 87)
      else None)"

subsection \<open>\<open>repr\<close> and \<open>str\<close>\<close>

text \<open>
  \<open>repr\<close> of a string: single quotes, unless the string has a single quote and no
  double quote; the quote and the backslash are escaped, tab, newline and carriage
  return are written \<open>\t\<close>, \<open>\n\<close>, \<open>\r\<close>, and every other non-printable character
  (below 0x20, 0x7F to 0xA0, 0xAD) as \<open>\xNN\<close>.
\<close>

definition repr_char :: "char \<Rightarrow> char \<Rightarrow> string" where
  "repr_char q c =
     (let n = (of_char c :: nat) in
      if c = q \<or> c = bslash then [bslash, c]
      else if n = 9 then [bslash, CHR ''t'']
      else if n = 10 then [bslash, CHR ''n'']
      else if n = 13 then [bslash, CHR ''r'']
      else if n < 32 \<or> (127 \<le> n \<and> n \<le> 160) \<or> n = 173
        then [bslash, CHR ''x'', hex_char (n div 16), hex_char (n mod 16)]
      else [c])"

definition repr_str :: "string \<Rightarrow> string" where
  "repr_str s =
     (let q = (if squote \<in> set s \<and> dquote \<notin> set s then dquote else squote)
      in q # concat (map (repr_char q) s) @ [q])"

fun py_repr :: "pyval \<Rightarrow> string" where
  "py_repr PNone = ''None''"
| "py_repr (PBool b) = (if b then ''True'' else ''False'')"
| "py_repr (PInt i) = str_of_int i"
| "py_repr (PStr s) = repr_str s"
| "py_repr (PList xs) = ''['' @ str_join '', '' (map py_repr xs) @ '']''"
| "py_repr (PDict kvs) =
     ''{'' @ str_join '', '' (map (\<lambda>kv. repr_str (fst kv) @ '': '' @ py_repr (snd kv)) kvs) @ ''}''"

definition py_str :: "pyval \<Rightarrow> string" where
  "py_str v = (case v of PStr s \<Rightarrow> s | _ \<Rightarrow> py_repr v)"

subsection \<open>The operators the script applies to a decoded value\<close>

text \<open>\<open>key in x\<close> for a string \<open>key\<close>.\<close>

fun py_contains :: "pyval \<Rightarrow> string \<Rightarrow> py_error + bool" where
  "py_contains (PDict kvs) key = Inr (key \<in> set (map fst kvs))"
| "py_contains (PList xs) key = Inr (PStr key \<in> set xs)"
| "py_contains (PStr s) key = Inr (str_contains key s)"
| "py_contains _ key = Inl TypeError"

text \<open>\<open>x[key]\<close> for a string \<open>key\<close>.\<close>

fun py_getitem :: "pyval \<Rightarrow> string \<Rightarrow> py_error + pyval" where
  "py_getitem (PDict kvs) key = (case map_of kvs key of None \<Rightarrow> Inl KeyError | Some v \<Rightarrow> Inr v)"
| "py_getitem _ key = Inl TypeError"

text \<open>\<open>len(x)\<close>.\<close>

fun py_len :: "pyval \<Rightarrow> py_error + nat" where
  "py_len (PList xs) = Inr (length xs)"
| "py_len (PStr s) = Inr (length s)"
| "py_len (PDict kvs) = Inr (length kvs)"
| "py_len _ = Inl TypeError"

text \<open>\<open>x[0]\<close>. The keys of a decoded \<open>dict\<close> are strings, so \<open>0\<close> is never among them.\<close>

fun py_first :: "pyval \<Rightarrow> py_error + pyval" where
  "py_first (PList xs) = (case xs of [] \<Rightarrow> Inl IndexError | x # _ \<Rightarrow> Inr x)"
| "py_first (PStr s) = (case s of [] \<Rightarrow> Inl IndexError | c # _ \<Rightarrow> Inr (PStr [c]))"
| "py_first (PDict kvs) = Inl KeyError"
| "py_first _ = Inl TypeError"

section \<open>The JSON codec of the standard library\<close>

subsection \<open>\<open>json.loads\<close>\<close>

text \<open>
  The decoder follows \<open>json.decoder\<close> and \<open>json.scanner\<close>: whitespace is space, tab,
  newline and carriage return; a value is a string, an object, an array, one of the
  literals \<open>null\<close>, \<open>true\<close>, \<open>false\<close>, or a number; every syntax error is a
  \<open>JSONDecodeError\<close>. Each function returns the value read and the rest of the input.
\<close>

definition is_ws :: "char \<Rightarrow> bool" where
  "is_ws c = (c = CHR '' '' \<or> c = CHR 0x09 \<or> c = CHR 0x0A \<or> c = CHR 0x0D)"

definition skip_ws :: "string \<Rightarrow> string" where
  "skip_ws s = dropWhile is_ws s"

text \<open>The escapes of one character after a backslash (the table \<open>BACKSLASH\<close>).\<close>

definition unescape :: "char \<Rightarrow> char option" where
  "unescape e =
     (if e = dquote then Some dquote
      else if e = bslash then Some bslash
      else if e = CHR ''/'' then Some CHR ''/''
      else if e = CHR ''b'' then Some (CHR 0x08)
      else if e = CHR ''f'' then Some (CHR 0x0C)
      else if e = CHR ''n'' then Some (CHR 0x0A)
      else if e = CHR ''r'' then Some (CHR 0x0D)
      else if e = CHR ''t'' then Some (CHR 0x09)
      else None)"

definition decode_uXXXX :: "char \<Rightarrow> char \<Rightarrow> char \<Rightarrow> char \<Rightarrow> nat option" where
  "decode_uXXXX a b c d =
     (case (hex_val a, hex_val b, hex_val c, hex_val d) of
        (Some w, Some x, Some y, Some z) \<Rightarrow> Some (((w * 16 + x) * 16 + y) * 16 + z)
      | _ \<Rightarrow> None)"

definition cons_char :: "char \<Rightarrow> py_error + (string \<times> string) \<Rightarrow> py_error + (string \<times> string)" where
  "cons_char c r = (case r of Inl e \<Rightarrow> Inl e | Inr (s, rest) \<Rightarrow> Inr (c # s, rest))"

text \<open>
  \<open>scanstring\<close>, entered after the opening quote, in strict mode: a control character
  below 0x20 is refused.
\<close>

fun scanstring :: "string \<Rightarrow> py_error + (string \<times> string)" where
  "scanstring [] = Inl JSONDecodeError"
| "scanstring [c] =
     (if c = dquote then Inr ([], []) else Inl JSONDecodeError)"
| "scanstring (c # e # es) =
     (if c = dquote then Inr ([], e # es)
      else if c = bslash then
        (if e = CHR ''u'' then
           (case es of
              h1 # h2 # h3 # h4 # rest \<Rightarrow>
                (case decode_uXXXX h1 h2 h3 h4 of
                   None \<Rightarrow> Inl JSONDecodeError
                 | Some uni \<Rightarrow>
                     if uni < 256 then cons_char (char_of uni) (scanstring rest)
                     else Inl Unsupported)
            | _ \<Rightarrow> Inl JSONDecodeError)
         else
           (case unescape e of
              None \<Rightarrow> Inl JSONDecodeError
            | Some ch \<Rightarrow> cons_char ch (scanstring es)))
      else if (of_char c :: nat) < 32 then Inl JSONDecodeError
      else cons_char c (scanstring (e # es)))"

text \<open>
  \<open>NUMBER_RE\<close>: an optional minus sign, then \<open>0\<close> or a digit sequence not starting
  with \<open>0\<close>, then an optional fraction and an optional exponent. With a fraction or an
  exponent the number is a float.
\<close>

datatype number = NoNumber | IntLit int string | FloatLit

definition starts_frac :: "string \<Rightarrow> bool" where
  "starts_frac s = (case s of c # d # _ \<Rightarrow> c = CHR ''.'' \<and> is_digit d | _ \<Rightarrow> False)"

definition starts_exp :: "string \<Rightarrow> bool" where
  "starts_exp s =
     (case s of
        c # t \<Rightarrow>
          (c = CHR ''e'' \<or> c = CHR ''E'') \<and>
          (case t of
             d # u \<Rightarrow>
               if d = CHR ''+'' \<or> d = CHR ''-''
               then (case u of x # _ \<Rightarrow> is_digit x | [] \<Rightarrow> False)
               else is_digit d
           | [] \<Rightarrow> False)
      | [] \<Rightarrow> False)"

definition match_number :: "string \<Rightarrow> number" where
  "match_number s =
     (let neg = (case s of c # _ \<Rightarrow> c = CHR ''-'' | [] \<Rightarrow> False);
          t = (if neg then tl s else s)
      in case t of
           [] \<Rightarrow> NoNumber
         | d # u \<Rightarrow>
             if \<not> is_digit d then NoNumber
             else
               let ds = (if d = CHR ''0'' then [d] else d # takeWhile is_digit u);
                   rest = drop (length ds) t
               in if starts_frac rest \<or> starts_exp rest then FloatLit
                  else IntLit (if neg then - int (nat_of_digits ds) else int (nat_of_digits ds)) rest)"

text \<open>
  \<open>scan_once\<close>, \<open>JSONArray\<close> and \<open>JSONObject\<close>. The first argument bounds the number of
  array items and object members still to be read, one inside the other or one after
  the other; \<open>loads\<close> starts with the length of the input, which has at least one
  character for each.
  \<open>parse_array\<close> is entered at a value, with the values read so far; \<open>parse_object\<close>
  after the opening quote of a key, with the pairs read so far.
\<close>

fun scan_once :: "nat \<Rightarrow> string \<Rightarrow> py_error + (pyval \<times> string)"
  and parse_array :: "nat \<Rightarrow> string \<Rightarrow> pyval list \<Rightarrow> py_error + (pyval \<times> string)"
  and parse_object :: "nat \<Rightarrow> string \<Rightarrow> (string \<times> pyval) list \<Rightarrow> py_error + (pyval \<times> string)"
where
  "scan_once n s =
     (case s of
        [] \<Rightarrow> Inl JSONDecodeError
      | c # cs \<Rightarrow>
          if c = dquote then
            (case scanstring cs of Inl e \<Rightarrow> Inl e | Inr (str, r) \<Rightarrow> Inr (PStr str, r))
          else if c = CHR ''{'' then
            (case skip_ws cs of
               [] \<Rightarrow> Inl JSONDecodeError
             | d # r \<Rightarrow>
                 if d = CHR ''}'' then Inr (PDict [], r)
                 else if d = dquote then parse_object n r []
                 else Inl JSONDecodeError)
          else if c = CHR ''['' then
            (case skip_ws cs of
               [] \<Rightarrow> Inl JSONDecodeError
             | d # r \<Rightarrow>
                 if d = CHR '']'' then Inr (PList [], r)
                 else parse_array n (d # r) [])
          else if prefix ''null'' s then Inr (PNone, drop 4 s)
          else if prefix ''true'' s then Inr (PBool True, drop 4 s)
          else if prefix ''false'' s then Inr (PBool False, drop 5 s)
          else
            (case match_number s of
               IntLit i r \<Rightarrow> Inr (PInt i, r)
             | FloatLit \<Rightarrow> Inl Unsupported
             | NoNumber \<Rightarrow>
                 if prefix ''NaN'' s \<or> prefix ''Infinity'' s \<or> prefix ''-Infinity'' s
                 then Inl Unsupported
                 else Inl JSONDecodeError))"
| "parse_array 0 s values = Inl OutOfFuel"
| "parse_array (Suc n) s values =
     (case scan_once n s of
        Inl e \<Rightarrow> Inl e
      | Inr (v, r) \<Rightarrow>
          (case skip_ws r of
             [] \<Rightarrow> Inl JSONDecodeError
           | d # u \<Rightarrow>
               if d = CHR '']'' then Inr (PList (values @ [v]), u)
               else if d = CHR '','' then parse_array n (skip_ws u) (values @ [v])
               else Inl JSONDecodeError))"
| "parse_object 0 s pairs = Inl OutOfFuel"
| "parse_object (Suc n) s pairs =
     (case scanstring s of
        Inl e \<Rightarrow> Inl e
      | Inr (key, r) \<Rightarrow>
          (case skip_ws r of
             [] \<Rightarrow> Inl JSONDecodeError
           | d # u \<Rightarrow>
               if d \<noteq> CHR '':'' then Inl JSONDecodeError
               else
                 (case scan_once n (skip_ws u) of
                    Inl e \<Rightarrow> Inl e
                  | Inr (v, r2) \<Rightarrow>
                      (case skip_ws r2 of
                         [] \<Rightarrow> Inl JSONDecodeError
                       | d2 # u2 \<Rightarrow>
                           if d2 = CHR ''}'' then Inr (PDict (dict_of_pairs [] (pairs @ [(key, v)])), u2)
                           else if d2 = CHR '','' then
                             (case skip_ws u2 of
                                [] \<Rightarrow> Inl JSONDecodeError
                              | d3 # u3 \<Rightarrow>
                                  if d3 = dquote then parse_object n u3 (pairs @ [(key, v)])
                                  else Inl JSONDecodeError)
                           else Inl JSONDecodeError))))"

declare scan_once.simps [simp del]

text \<open>
  \<open>json.loads(s)\<close>: leading whitespace, one value, trailing whitespace, the end of
  the input. This is the decoder in an interpreter with room to spare: the limits of
  the interpreter are not part of it. Where \<open>json.loads\<close> reaches one, it raises
  \<open>RecursionError\<close> (values nested deeper than the stack allows) or \<open>ValueError\<close> (an
  integer literal with more digits than the conversion limit), and \<open>loads\<close> answers
  as if there were no limit. The statements about the renderer that hold for every
  input therefore take the decoder as a parameter; \<open>loads\<close> is evaluated on the
  short inputs of the scenarios only.
\<close>

definition loads :: "string \<Rightarrow> py_error + pyval" where
  "loads s =
     (case scan_once (length s) (skip_ws s) of
        Inl e \<Rightarrow> Inl e
      | Inr (v, r) \<Rightarrow> if skip_ws r = [] then Inr v else Inl JSONDecodeError)"

subsection \<open>\<open>json.dumps\<close>\<close>

text \<open>
  The encoder with its defaults: \<open>ensure_ascii\<close>, the separators \<open>'', ''\<close> and
  \<open>'': ''\<close>, no indentation. Inside a string the quote and the backslash are escaped,
  backspace, form feed, newline, carriage return and tab have their short escapes,
  and every other character outside space to tilde is written \<open>\u00XX\<close>.
\<close>

definition encode_char :: "char \<Rightarrow> string" where
  "encode_char c =
     (let n = (of_char c :: nat) in
      if c = dquote then [bslash, dquote]
      else if c = bslash then [bslash, bslash]
      else if n = 10 then [bslash, CHR ''n'']
      else if n = 13 then [bslash, CHR ''r'']
      else if n = 9 then [bslash, CHR ''t'']
      else if n = 8 then [bslash, CHR ''b'']
      else if n = 12 then [bslash, CHR ''f'']
      else if n < 32 \<or> 126 < n
        then [bslash, CHR ''u'', CHR ''0'', CHR ''0'', hex_char (n div 16), hex_char (n mod 16)]
      else [c])"

definition encode_str :: "string \<Rightarrow> string" where
  "encode_str s = dquote # concat (map encode_char s) @ [dquote]"

fun dumps :: "pyval \<Rightarrow> string" where
  "dumps PNone = ''null''"
| "dumps (PBool b) = (if b then ''true'' else ''false'')"
| "dumps (PInt i) = str_of_int i"
| "dumps (PStr s) = encode_str s"
| "dumps (PList xs) = ''['' @ str_join '', '' (map dumps xs) @ '']''"
| "dumps (PDict kvs) =
     ''{'' @ str_join '', '' (map (\<lambda>kv. encode_str (fst kv) @ '': '' @ dumps (snd kv)) kvs) @ ''}''"

section \<open>The plan store (app.py, lines 11-27 and 39-40)\<close>








type_synonym plans = "(string \<times> string) list"



definition get_insurance_plans :: "plans \<Rightarrow> string list" where
  "get_insurance_plans plans_data = map fst plans_data"

section \<open>The query (app.py, lines 43-69)\<close>

record chat_message =
  role :: string
  content :: string

text \<open>
  The arguments of \<open>client.chat.completions.create\<close>; the temperature is the number
  the literal \<open>0.3\<close> denotes.
\<close>

record request =
  messages :: "chat_message list"
  model :: string
  temperature :: rat
  max_tokens :: nat

text \<open>
  The dictionary comprehension of line 47: the names are visited in order; a name that
  is not a key of \<open>plans_data\<close> is passed over by the filter \<open>if name in plans_data\<close>,
  and for the others \<open>plans_data[name]\<close> is stored, which raises \<open>KeyError\<close> on a
  missing key.
\<close>

fun select_plans :: "plans \<Rightarrow> string list \<Rightarrow> plans \<Rightarrow> py_error + plans" where
  "select_plans stored [] selected = Inr selected"
| "select_plans stored (name # names) selected =
     (if name \<in> set (map fst stored) then
        (case map_of stored name of
           None \<Rightarrow> Inl KeyError
         | Some details \<Rightarrow> select_plans stored names (dict_set selected name details))
      else select_plans stored names selected)"

definition plan_segment :: "string \<Rightarrow> string \<Rightarrow> string" where
  "plan_segment name details =
     ''<plan name='' @ [dquote] @ name @ [dquote] @ ''>'' @ details @ ''</plan>''"

definition concatenated_details :: "plans \<Rightarrow> string list \<Rightarrow> py_error + string" where
  "concatenated_details stored plan_names =
     bindE (select_plans stored plan_names []) (\<lambda>selected_plans.
       Inr (str_join '' '' (map (\<lambda>(name, details). plan_segment name details) selected_plans)))"

text \<open>The content of the user message, line 58.\<close>

definition user_content :: "plans \<Rightarrow> string \<Rightarrow> string list \<Rightarrow> py_error + string" where
  "user_content stored question plan_names =
     bindE (concatenated_details stored plan_names) (\<lambda>details.
       Inr (question @ '' '' @ details))"

definition system_content :: string where
  "system_content =
     ''You are a helpful assistant specializing in comparing Blue Cross Blue Shield insurance plans. Provide concise, accurate comparisons based on the plans given.''"

definition build_request :: "plans \<Rightarrow> string \<Rightarrow> string list \<Rightarrow> py_error + request" where
  "build_request stored question plan_names =
     bindE (user_content stored question plan_names) (\<lambda>prompt.
       Inr \<lparr> messages =
               [\<lparr> role = ''system'', content = system_content \<rparr>,
                \<lparr> role = ''user'', content = prompt \<rparr>],
             model = ''jamba-1.5-large'',
             temperature = 3 / 10,
             max_tokens = 5000 \<rparr>)"

text \<open>
  The surroundings of the script: the plans loaded at startup, the secrets, and the
  remote service. \<open>create key req\<close> is what \<open>client.chat.completions.create\<close> does
  for a client built with \<open>key\<close>: it raises, or returns a response, given here by the
  dictionary \<open>response.dict()\<close>.
\<close>

record env =
  plans_data :: plans
  secrets :: "string \<Rightarrow> string option"
  create :: "string \<Rightarrow> request \<Rightarrow> py_error + (string \<times> pyval) list"

text \<open>
  \<open>run_jamba_query\<close> returns the requests it sent to the service and either the
  exception it raised or the string it returned.
\<close>

definition run_jamba_query :: "env \<Rightarrow> string \<Rightarrow> string list \<Rightarrow> request list \<times> (py_error + string)" where
  "run_jamba_query E question plan_names =
     (case secrets E ''AI21_API_KEY'' of
        None \<Rightarrow> ([], Inl KeyError)
      | Some key \<Rightarrow>
          (case build_request (plans_data E) question plan_names of
             Inl e \<Rightarrow> ([], Inl e)
           | Inr req \<Rightarrow>
               (case create E key req of
                  Inl e \<Rightarrow> ([req], Inl e)
                | Inr response \<Rightarrow> ([req], Inr (dumps (PDict response))))))"

section \<open>The response renderer and the Compare button (app.py, lines 111-161)\<close>

text \<open>What the script puts on the page.\<close>

datatype ui =
    Subheader string
  | Write string
  | Error string
  | Success string
  | ExpanderJson string pyval

text \<open>Lines 122-131: the message is looked up in the decoded response.\<close>

definition extract_message :: "pyval \<Rightarrow> py_error + pyval" where
  "extract_message parsed_response =
     bindE (py_contains parsed_response ''choices'') (\<lambda>has_choices.
     bindE (if has_choices
            then bindE (py_getitem parsed_response ''choices'') (\<lambda>choices.
                 bindE (py_len choices) (\<lambda>n. Inr (n > 0)))
            else Inr False) (\<lambda>nonempty.
     if nonempty then
       bindE (py_getitem parsed_response ''choices'') (\<lambda>choices.
       bindE (py_first choices) (\<lambda>choice.
       bindE (py_contains choice ''messages'') (\<lambda>has_messages.
       if has_messages then py_getitem choice ''messages''
       else
         bindE (py_contains choice ''mesages'') (\<lambda>has_mesages.
         if has_mesages then py_getitem choice ''mesages''
         else Inr (PStr (py_str choice))))))
     else Inr (PStr (py_str parsed_response))))"

text \<open>Lines 135-148 on a value: only a string has the method \<open>replace\<close>.\<close>

definition escape_value :: "pyval \<Rightarrow> py_error + string" where
  "escape_value message =
     (case message of PStr s \<Rightarrow> Inr (escaped_message s) | _ \<Rightarrow> Inl AttributeError)"

text \<open>
  The body of the \<open>try\<close> statement, lines 118-154: what it has put on the page, and the
  exception that ended it, if any. The first argument is \<open>json.loads\<close>, a function of
  the standard library: what it returns or raises on each string.
\<close>

type_synonym decoder = "string \<Rightarrow> py_error + pyval"

definition try_body_with :: "decoder \<Rightarrow> string \<Rightarrow> ui list \<times> py_error option" where
  "try_body_with json_loads jamba_response =
     (case json_loads jamba_response of
        Inl e \<Rightarrow> ([], Some e)
      | Inr parsed_response \<Rightarrow>
          (case extract_message parsed_response of
             Inl e \<Rightarrow> ([], Some e)
           | Inr message \<Rightarrow>
               (case escape_value message of
                  Inl e \<Rightarrow> ([Subheader ''Model Response:''], Some e)
                | Inr escaped \<Rightarrow>
                    ([Subheader ''Model Response:'',
                      Write escaped,
                      ExpanderJson ''View Full Response'' parsed_response], None))))"

text \<open>
  Lines 116-160: the \<open>except\<close> clause handles \<open>JSONDecodeError\<close> alone; any other
  exception leaves the statement.
\<close>

definition render_with :: "decoder \<Rightarrow> string \<Rightarrow> ui list \<times> py_error option" where
  "render_with json_loads jamba_response =
     (if jamba_response \<noteq> [] then
        (case try_body_with json_loads jamba_response of
           (shown, Some JSONDecodeError) \<Rightarrow>
             (shown @ [Error ''Failed to parse JSON response. Raw response:'',
                       Write (''<pre>'' @ jamba_response @ ''</pre>'')], None)
         | r \<Rightarrow> r)
      else ([Error ''No response from Jamba-1.5-Large.''], None))"

text \<open>The same with the decoder of this development.\<close>

definition try_body :: "string \<Rightarrow> ui list \<times> py_error option" where
  "try_body jamba_response = try_body_with loads jamba_response"

definition render :: "string \<Rightarrow> ui list \<times> py_error option" where
  "render jamba_response = render_with loads jamba_response"

text \<open>
  One run of lines 111-161: what was put on the page, the requests sent to the
  service, and the exception that ended the run, if any. The spinner, which is on the
  page only while the block runs, is left out.
\<close>

record outcome =
  rendered :: "ui list"
  calls :: "request list"
  raised :: "py_error option"

definition compare_plans :: "env \<Rightarrow> bool \<Rightarrow> string list \<Rightarrow> string \<Rightarrow> outcome" where
  "compare_plans E button selected_plans question =
     (if button \<and> length selected_plans > 0 then
        (case run_jamba_query E question selected_plans of
           (sent, Inl e) \<Rightarrow> \<lparr> rendered = [], calls = sent, raised = Some e \<rparr>
         | (sent, Inr jamba_response) \<Rightarrow>
             (case render jamba_response of
                (shown, Some e) \<Rightarrow> \<lparr> rendered = shown, calls = sent, raised = Some e \<rparr>
              | (shown, None) \<Rightarrow>
                  \<lparr> rendered = shown @ [Success ''Comparison complete!''], calls = sent, raised = None \<rparr>))
      else \<lparr> rendered = [], calls = [], raised = None \<rparr>)"

section \<open>Notions used in the statements\<close>

text \<open>
  The escaping as the specification words it: each of the twelve characters
  \<open>$ * _ [ ] ( ) # + - . !\<close> gets one backslash before it, and no other character is
  altered.
\<close>

definition special_chars :: "char list" where
  "special_chars = ''$*_[]()#+-.!''"

definition escape_char :: "char \<Rightarrow> string" where
  "escape_char c = (if c \<in> set special_chars then [bslash, c] else [c])"

text \<open>The names of a selection, each once, in the order in which they first occur.\<close>

fun first_occurrences :: "'a list \<Rightarrow> 'a list" where
  "first_occurrences [] = []"
| "first_occurrences (x # xs) = x # removeAll x (first_occurrences xs)"

text \<open>
  What the decoder returns for the text the encoder wrote for a value: the value
  itself, except that where an association list names a key twice, which no Python
  \<open>dict\<close> does, the decoder keeps the last value under the first position.
\<close>

fun decoded :: "pyval \<Rightarrow> pyval" where
  "decoded (PList xs) = PList (map decoded xs)"
| "decoded (PDict kvs) = PDict (dict_of_pairs [] (map (\<lambda>kv. (fst kv, decoded (snd kv))) kvs))"
| "decoded v = v"

text \<open>A value as Python has it: no dictionary names a key twice.\<close>

fun well_formed :: "pyval \<Rightarrow> bool" where
  "well_formed (PList xs) = list_all well_formed xs"
| "well_formed (PDict kvs) = (distinct (map fst kvs) \<and> list_all (\<lambda>kv. well_formed (snd kv)) kvs)"
| "well_formed v = True"

text \<open>
  A result of the decoder that stayed within its budget: it is not \<open>OutOfFuel\<close>, and
  a value was read from at least one character of the input \<open>s\<close>.
\<close>

definition within_budget :: "py_error + (pyval \<times> string) \<Rightarrow> string \<Rightarrow> bool" where
  "within_budget r s =
     (case r of Inl e \<Rightarrow> e \<noteq> OutOfFuel | Inr (v, rest) \<Rightarrow> length rest < length s)"

text \<open>The text after a number does not continue the number.\<close>

definition ends_number :: "string \<Rightarrow> bool" where
  "ends_number rest =
     (case rest of
        [] \<Rightarrow> True
      | c # _ \<Rightarrow> \<not> is_digit c \<and> c \<noteq> CHR ''.'' \<and> c \<noteq> CHR ''e'' \<and> c \<noteq> CHR ''E'')"

chapter \<open>Verification\<close>

section \<open>Properties of the escaping pass\<close>

lemma str_replace_single:
  "str_replace [c] new s = concat (map (\<lambda>x. if x = c then new else [x]) s)"
  by (induction s) auto

lemma str_replace_single_append:
  "str_replace [c] new (s @ t) = str_replace [c] new s @ str_replace [c] new t"
  by (simp add: str_replace_single)

lemma escaped_message_append:
  "escaped_message (s @ t) = escaped_message s @ escaped_message t"
  by (simp add: escaped_message_def str_replace_single_append)

lemma escaped_message_Nil: "escaped_message [] = []"
  by (simp add: escaped_message_def)

lemma escaped_message_single: "escaped_message [c] = escape_char c"
  by (simp add: escaped_message_def escape_char_def special_chars_def bslash_def)

lemma escaped_message_Cons:
  "escaped_message (c # s) = escape_char c @ escaped_message s"
  using escaped_message_append [of "[c]" s] by (simp add: escaped_message_single)

text \<open>
  Claim C1. The escaping pass is the character-wise map that puts exactly one backslash
  before each of the twelve characters \<open>$ * _ [ ] ( ) # + - . !\<close> and copies every
  other character: the twelve replacements in sequence equal \<open>escape_char\<close> applied
  to each character of the source text. Hence the text without its backslashes is
  unchanged, and the pass adds one backslash for each special character and none for
  a backslash already there or inserted earlier.
\<close>

theorem escaped_message_total:
  "escaped_message s = concat (map escape_char s) \<and>
   filter (\<lambda>c. c \<noteq> bslash) (escaped_message s) = filter (\<lambda>c. c \<noteq> bslash) s \<and>
   length (filter (\<lambda>c. c = bslash) (escaped_message s)) =
     length (filter (\<lambda>c. c = bslash) s) + length (filter (\<lambda>c. c \<in> set special_chars) s)"
proof (induction s)
  case Nil
  show ?case by (simp add: escaped_message_Nil)
next
  case (Cons c s)
  have "bslash \<notin> set special_chars"
    by (simp add: special_chars_def bslash_def)
  then show ?case using Cons
    by (auto simp add: escaped_message_Cons escape_char_def)
qed

theorem escaped_message_total_witness:
  "escaped_message ''$5.0!'' =
     [bslash, CHR ''$'', CHR ''5'', bslash, CHR ''.'', CHR ''0'', bslash, CHR ''!'']"
  using escaped_message_total [of "''$5.0!''"]
  by (simp add: escape_char_def special_chars_def)

section \<open>Properties of the prompt\<close>

lemma dict_set_fresh: "k \<notin> fst ` set ps \<Longrightarrow> dict_set ps k v = ps @ [(k, v)]"
  by (induction ps) auto

lemma select_plans_known:
  "distinct names \<Longrightarrow> set names \<subseteq> fst ` set stored \<Longrightarrow> set names \<inter> fst ` set selected = {} \<Longrightarrow>
   select_plans stored names selected =
     Inr (selected @ map (\<lambda>name. (name, the (map_of stored name))) names)"
proof (induction names arbitrary: selected)
  case Nil
  show ?case by simp
next
  case (Cons name names)
  from Cons.prems have "map_of stored name \<noteq> None"
    by (simp add: map_of_eq_None_iff)
  then obtain details where d: "map_of stored name = Some details"
    by blast
  have fresh: "name \<notin> fst ` set selected" using Cons.prems by auto
  have "set names \<inter> fst ` set (dict_set selected name details) = {}"
    using Cons.prems by (auto simp add: dict_set_fresh [OF fresh])
  with Cons.IH [of "dict_set selected name details"] Cons.prems
  show ?case by (simp add: d dict_set_fresh [OF fresh])
qed

lemma select_plans_filter:
  "select_plans stored names selected =
   select_plans stored (filter (\<lambda>name. name \<in> fst ` set stored) names) selected"
  by (induction names arbitrary: selected) (auto split: option.splits)

lemma select_plans_total: "\<exists>chosen. select_plans stored names selected = Inr chosen"
proof (induction names arbitrary: selected)
  case Nil
  show ?case by simp
next
  case (Cons name names)
  show ?case
  proof (cases "name \<in> fst ` set stored")
    case True
    then have "map_of stored name \<noteq> None"
      by (simp add: map_of_eq_None_iff)
    then obtain details where "map_of stored name = Some details"
      by blast
    then show ?thesis using True Cons.IH by simp
  next
    case False
    then show ?thesis using Cons.IH by simp
  qed
qed

text \<open>
  Claim C2. For a selection of distinct plan names that are all keys of the store (the
  multiselect gives each option at most once; one or two names in the application,
  any number here), the prompt is the question, a space, and the segments
  \<open><plan name="name">text</plan>\<close> of the selected names in their order, joined by
  single spaces, each with the text stored under that name. In particular the prompt
  begins with the question.
\<close>

theorem user_content_known:
  assumes "distinct plan_names" and "set plan_names \<subseteq> fst ` set stored"
  shows "user_content stored question plan_names =
           Inr (question @ '' '' @
                str_join '' '' (map (\<lambda>name. plan_segment name (the (map_of stored name))) plan_names)) \<and>
         (\<exists>prompt. user_content stored question plan_names = Inr prompt \<and> prefix question prompt)"
  using select_plans_known [OF assms, of "[]"]
  by (simp add: user_content_def concatenated_details_def bindE_def comp_def)

theorem user_content_known_witness:
  "user_content [(''A'', ''text a''), (''B'', ''text b'')] ''Which?'' [''B'', ''A''] =
     Inr (''Which? <plan name='' @ [dquote] @ ''B'' @ [dquote] @ ''>text b</plan> <plan name='' @
          [dquote] @ ''A'' @ [dquote] @ ''>text a</plan>'')"
  using user_content_known [of "[''B'', ''A'']" "[(''A'', ''text a''), (''B'', ''text b'')]" "''Which?''"]
  by (simp add: plan_segment_def)

text \<open>
  Claim C6. Building the prompt never raises, whatever names are selected; the names
  that are not keys of the store contribute nothing, so the prompt is the one built
  from the known names alone, and for distinct names it is the question followed by
  the segments of exactly the known names.
\<close>

theorem unknown_names_omitted:
  "(\<exists>prompt. user_content stored question plan_names = Inr prompt) \<and>
   user_content stored question plan_names =
     user_content stored question (filter (\<lambda>name. name \<in> fst ` set stored) plan_names) \<and>
   (distinct plan_names \<longrightarrow>
      user_content stored question plan_names =
        Inr (question @ '' '' @
             str_join '' '' (map (\<lambda>name. plan_segment name (the (map_of stored name)))
               (filter (\<lambda>name. name \<in> fst ` set stored) plan_names))))"
proof -
  obtain chosen where c: "select_plans stored plan_names [] = Inr chosen"
    using select_plans_total by blast
  have 1: "\<exists>prompt. user_content stored question plan_names = Inr prompt"
    by (simp add: user_content_def concatenated_details_def bindE_def c)
  have 2: "user_content stored question plan_names =
     user_content stored question (filter (\<lambda>name. name \<in> fst ` set stored) plan_names)"
    using select_plans_filter [of stored plan_names "[]"]
    by (simp add: user_content_def concatenated_details_def)
  have 3: "user_content stored question plan_names =
        Inr (question @ '' '' @
             str_join '' '' (map (\<lambda>name. plan_segment name (the (map_of stored name)))
               (filter (\<lambda>name. name \<in> fst ` set stored) plan_names)))" if "distinct plan_names"
  proof -
    have "distinct (filter (\<lambda>name. name \<in> fst ` set stored) plan_names)"
      using that by simp
    moreover have "set (filter (\<lambda>name. name \<in> fst ` set stored) plan_names) \<subseteq> fst ` set stored"
      by auto
    ultimately show ?thesis
      using select_plans_known [of "filter (\<lambda>name. name \<in> fst ` set stored) plan_names" stored "[]"]
        select_plans_filter [of stored plan_names "[]"]
      by (simp add: user_content_def concatenated_details_def bindE_def comp_def)
  qed
  from 1 2 3 show ?thesis by blast
qed

theorem unknown_names_omitted_witness:
  "user_content [(''A'', ''text a''), (''B'', ''text b'')] ''Which?'' [''Z'', ''A''] =
     Inr (''Which? <plan name='' @ [dquote] @ ''A'' @ [dquote] @ ''>text a</plan>'')"
  using unknown_names_omitted [of "[(''A'', ''text a''), (''B'', ''text b'')]" "''Which?''" "[''Z'', ''A'']"]
  by (auto simp add: plan_segment_def)

lemma dict_set_same:
  "distinct ks \<Longrightarrow> k \<in> set ks \<Longrightarrow>
   dict_set (map (\<lambda>n. (n, f n)) ks) k (f k) = map (\<lambda>n. (n, f n)) ks"
  by (induction ks) auto

lemma first_occurrences_distinct: "distinct names \<Longrightarrow> first_occurrences names = names"
proof (induction names)
  case Nil
  show ?case by simp
next
  case (Cons n ns)
  then have "first_occurrences ns = ns" and "n \<notin> set ns" by simp_all
  then show ?case by (simp add: removeAll_id)
qed

lemma filter_removeAll_known:
  "n \<in> set ks \<Longrightarrow> filter (\<lambda>m. m \<notin> set ks) (removeAll n xs) = filter (\<lambda>m. m \<notin> set ks) xs"
  by (induction xs) auto

lemma filter_removeAll_new:
  "filter (\<lambda>m. m \<notin> set (ks @ [n])) xs = filter (\<lambda>m. m \<notin> set ks) (removeAll n xs)"
  by (induction xs) auto

text \<open>
  The comprehension over known names, started from the entries of distinct names
  \<open>ks\<close>: a name already stored keeps its place, a new one goes to the end.
\<close>

lemma select_plans_repeated:
  "set names \<subseteq> fst ` set stored \<Longrightarrow> distinct ks \<Longrightarrow>
   select_plans stored names (map (\<lambda>n. (n, the (map_of stored n))) ks) =
     Inr (map (\<lambda>n. (n, the (map_of stored n)))
            (ks @ filter (\<lambda>m. m \<notin> set ks) (first_occurrences names)))"
proof (induction names arbitrary: ks)
  case Nil
  show ?case by simp
next
  case (Cons n ns)
  let ?f = "\<lambda>n. the (map_of stored n)"
  from Cons.prems have "map_of stored n \<noteq> None"
    by (simp add: map_of_eq_None_iff)
  then obtain details where d: "map_of stored n = Some details"
    by blast
  then have fd: "?f n = details" by simp
  have known: "n \<in> set (map fst stored)" using Cons.prems by simp
  show ?case
  proof (cases "n \<in> set ks")
    case True
    have "dict_set (map (\<lambda>n. (n, ?f n)) ks) n details = map (\<lambda>n. (n, ?f n)) ks"
      using dict_set_same [OF Cons.prems(2) True, of ?f] fd by simp
    then show ?thesis
      using Cons.IH [of ks] Cons.prems True known d
      by (simp add: filter_removeAll_known)
  next
    case False
    have "n \<notin> fst ` set (map (\<lambda>n. (n, ?f n)) ks)"
      using False by (auto simp add: image_iff)
    then have "dict_set (map (\<lambda>n. (n, ?f n)) ks) n details = map (\<lambda>n. (n, ?f n)) (ks @ [n])"
      using dict_set_fresh [of n "map (\<lambda>n. (n, ?f n)) ks" details] fd by simp
    moreover have "distinct (ks @ [n])" using Cons.prems(2) False by simp
    ultimately show ?thesis
      using Cons.IH [of "ks @ [n]"] Cons.prems False known d
        filter_removeAll_new [of ks n "first_occurrences ns"]
      by simp
  qed
qed

text \<open>
  A selection that repeats a name: the prompt has one segment for each name, at the
  place of its first occurrence.
\<close>

lemma user_content_repeated:
  assumes "set plan_names \<subseteq> fst ` set stored"
  shows "user_content stored question plan_names =
           Inr (question @ '' '' @
                str_join '' '' (map (\<lambda>name. plan_segment name (the (map_of stored name)))
                  (first_occurrences plan_names)))"
  using select_plans_repeated [OF assms, of "[]"]
  by (simp add: user_content_def concatenated_details_def bindE_def comp_def)

section \<open>Properties of the Compare button\<close>

text \<open>
  Claim C9. With an empty selection the guard of line 111 fails, pressed or not: the
  run sends no request to the service and puts nothing on the page, neither a result
  nor an error, and raises nothing.
\<close>

theorem empty_selection_does_nothing:
  "compare_plans E button [] question = \<lparr> rendered = [], calls = [], raised = None \<rparr>"
  by (simp add: compare_plans_def)

section \<open>Properties of the plan store\<close>






section \<open>Properties of the renderer\<close>

lemma key_in_dict: "(key \<in> fst ` set kvs) = (map_of kvs key \<noteq> None)"
  by (simp add: map_of_eq_None_iff)

text \<open>
  Claim C3, as the code has it. For a decoded response that is an object: when it has
  no key \<open>choices\<close>, or \<open>choices\<close> is an empty array, the message is the string form
  of the whole object; when \<open>choices\<close> is an array whose first entry is an object, the
  message is that entry's field \<open>messages\<close>, or else its field \<open>mesages\<close>, or else the
  string form of the entry. In these cases the extraction does not raise.
\<close>

theorem extract_message_chain:
  "(map_of kvs ''choices'' = None \<longrightarrow>
      extract_message (PDict kvs) = Inr (PStr (py_str (PDict kvs)))) \<and>
   (map_of kvs ''choices'' = Some (PList []) \<longrightarrow>
      extract_message (PDict kvs) = Inr (PStr (py_str (PDict kvs)))) \<and>
   (map_of kvs ''choices'' = Some (PList (PDict entry # others)) \<longrightarrow>
      extract_message (PDict kvs) =
        Inr (case map_of entry ''messages'' of
               Some m \<Rightarrow> m
             | None \<Rightarrow>
                 (case map_of entry ''mesages'' of
                    Some m \<Rightarrow> m
                  | None \<Rightarrow> PStr (py_str (PDict entry)))))"
proof -
  have absent: "extract_message (PDict kvs) = Inr (PStr (py_str (PDict kvs)))"
    if "map_of kvs ''choices'' = None"
    using that by (simp add: extract_message_def bindE_def key_in_dict)
  have empty: "extract_message (PDict kvs) = Inr (PStr (py_str (PDict kvs)))"
    if "map_of kvs ''choices'' = Some (PList [])"
    using that by (simp add: extract_message_def bindE_def key_in_dict)
  have first: "extract_message (PDict kvs) =
        Inr (case map_of entry ''messages'' of
               Some m \<Rightarrow> m
             | None \<Rightarrow>
                 (case map_of entry ''mesages'' of
                    Some m \<Rightarrow> m
                  | None \<Rightarrow> PStr (py_str (PDict entry))))"
    if "map_of kvs ''choices'' = Some (PList (PDict entry # others))"
    using that by (simp add: extract_message_def bindE_def key_in_dict split: option.splits)
  from absent empty first show ?thesis by blast
qed

theorem extract_message_chain_witness:
  "extract_message (PDict [(''choices'', PList [PDict [(''mesages'', PStr ''test_value'')]])]) =
     Inr (PStr ''test_value'') \<and>
   extract_message (PDict [(''choices'', PList [])]) =
     Inr (PStr (''{'' @ [squote] @ ''choices'' @ [squote] @ '': []}'')) \<and>
   extract_message (PDict [(''id'', PStr ''x'')]) =
     Inr (PStr (''{'' @ [squote] @ ''id'' @ [squote] @ '': '' @ [squote] @ ''x'' @ [squote] @ ''}''))"
  using extract_message_chain [of "[(''choices'', PList [PDict [(''mesages'', PStr ''test_value'')]])]"
      "[(''mesages'', PStr ''test_value'')]" "[]"]
    extract_message_chain [of "[(''choices'', PList [])]"]
    extract_message_chain [of "[(''id'', PStr ''x'')]"]
  by (simp add: py_str_def repr_str_def repr_char_def squote_def dquote_def bslash_def Let_def)

text \<open>
  Claim C3 as stated fails twice. The field looked up first is \<open>messages\<close>, not
  \<open>message\<close>: for \<open>{"choices":[{"message":"hi"}]}\<close> the message is the string form of
  the entry, \<open>{'message': 'hi'}\<close>. And the extraction raises on a decoded response of
  another shape: \<open>{"choices": null}\<close> decodes, \<open>len(None)\<close> raises \<open>TypeError\<close>, and
  the \<open>except\<close> clause does not handle it.
\<close>

theorem extract_message_counterexample:
  "extract_message (PDict [(''choices'', PList [PDict [(''message'', PStr ''hi'')]])]) =
     Inr (PStr (''{'' @ [squote] @ ''message'' @ [squote] @ '': '' @ [squote] @ ''hi'' @ [squote] @ ''}'')) \<and>
   loads (''{'' @ [dquote] @ ''choices'' @ [dquote] @ '': null}'') = Inr (PDict [(''choices'', PNone)]) \<and>
   extract_message (PDict [(''choices'', PNone)]) = Inl TypeError \<and>
   render (''{'' @ [dquote] @ ''choices'' @ [dquote] @ '': null}'') = ([], Some TypeError)"
  by code_simp

text \<open>The two scenarios of the specification, from the raw response to the page.\<close>

lemma alternate_key_scenario:
  "render (''{'' @ [dquote] @ ''choices'' @ [dquote] @ '':[{'' @ [dquote] @ ''mesages'' @ [dquote] @ '':'' @
          [dquote] @ ''test_value'' @ [dquote] @ ''}]}'') =
     ([Subheader ''Model Response:'',
       Write (''test'' @ [bslash] @ ''_value''),
       ExpanderJson ''View Full Response''
         (PDict [(''choices'', PList [PDict [(''mesages'', PStr ''test_value'')]])])],
      None)"
  by code_simp

lemma empty_choices_scenario:
  "render (''{'' @ [dquote] @ ''choices'' @ [dquote] @ '':[]}'') =
     ([Subheader ''Model Response:'',
       Write (''{'' @ [squote] @ ''choices'' @ [squote] @ '': '' @ [bslash] @ ''['' @ [bslash] @ '']}''),
       ExpanderJson ''View Full Response'' (PDict [(''choices'', PList [])])],
      None)"
  by code_simp

text \<open>
  Claim C5. The raw response \<open>{"choices":[{"messages":"Plan A has a $500 deductible."}]}\<close>
  decodes to an object whose first choice has the field \<open>messages\<close>; the message is the
  value of that field, and the page shows \<open>Plan A has a \$500 deductible\.\<close>
\<close>

theorem roundtrip_scenario:
  "loads (''{'' @ [dquote] @ ''choices'' @ [dquote] @ '':[{'' @ [dquote] @ ''messages'' @ [dquote] @ '':'' @
          [dquote] @ ''Plan A has a $500 deductible.'' @ [dquote] @ ''}]}'') =
     Inr (PDict [(''choices'', PList [PDict [(''messages'', PStr ''Plan A has a $500 deductible.'')]])]) \<and>
   extract_message (PDict [(''choices'', PList [PDict [(''messages'', PStr ''Plan A has a $500 deductible.'')]])]) =
     py_getitem (PDict [(''messages'', PStr ''Plan A has a $500 deductible.'')]) ''messages'' \<and>
   render (''{'' @ [dquote] @ ''choices'' @ [dquote] @ '':[{'' @ [dquote] @ ''messages'' @ [dquote] @ '':'' @
          [dquote] @ ''Plan A has a $500 deductible.'' @ [dquote] @ ''}]}'') =
     ([Subheader ''Model Response:'',
       Write (''Plan A has a '' @ [bslash] @ ''$500 deductible'' @ [bslash] @ ''.''),
       ExpanderJson ''View Full Response''
         (PDict [(''choices'', PList [PDict [(''messages'', PStr ''Plan A has a $500 deductible.'')]])])],
      None)"
  by code_simp

lemma loads_not_json: "loads ''not json'' = Inl JSONDecodeError"
  by code_simp

text \<open>
  Claim C7, as the code has it. Whatever the decoder does on other inputs: for a
  response string that is not empty and on which \<open>json.loads\<close> raises
  \<open>JSONDecodeError\<close>, the renderer shows the parse-error notice and then the raw
  string, unchanged, between \<open><pre>\<close> and \<open></pre>\<close>; it raises nothing.
\<close>

theorem parse_error_shows_raw:
  assumes "raw \<noteq> []" and "json_loads raw = Inl JSONDecodeError"
  shows "render_with json_loads raw =
           ([Error ''Failed to parse JSON response. Raw response:'',
             Write (''<pre>'' @ raw @ ''</pre>'')], None)"
  using assms by (simp add: render_with_def try_body_with_def)

theorem parse_error_shows_raw_witness:
  "render ''not json'' =
     ([Error ''Failed to parse JSON response. Raw response:'', Write ''<pre>not json</pre>''], None)"
  using parse_error_shows_raw [of "''not json''" loads] loads_not_json
  by (simp add: render_def)

text \<open>
  Claim C7 as stated fails for the empty string: the decoder refuses it, but the test
  \<open>if jamba_response\<close> of line 116 sends it to the other branch, which shows the
  notice \<open>No response from Jamba-1.5-Large.\<close> and neither the parse-error notice nor
  the raw string.
\<close>

theorem parse_error_counterexample:
  "loads [] = Inl JSONDecodeError \<and>
   render [] = ([Error ''No response from Jamba-1.5-Large.''], None)"
  by code_simp

text \<open>
  An exception of the decoder other than \<open>JSONDecodeError\<close>, such as the
  \<open>RecursionError\<close> and the \<open>ValueError\<close> of the interpreter's limits, is not handled:
  it leaves the renderer, which has put nothing on the page.
\<close>

lemma other_exception_leaves_renderer:
  assumes "raw \<noteq> []" and "json_loads raw = Inl e" and "e \<noteq> JSONDecodeError"
  shows "render_with json_loads raw = ([], Some e)"
  using assms by (cases e) (simp_all add: render_with_def try_body_with_def)

section \<open>Failure of the remote call\<close>

text \<open>
  When the call to the service raises, nothing in the script handles the exception:
  \<open>client.chat.completions.create\<close> (line 62) and the call of \<open>run_jamba_query\<close>
  (line 114) stand outside the \<open>try\<close> statement. The exception leaves
  \<open>run_jamba_query\<close> and the block of the Compare button; the run has sent the one
  request, with no second attempt, and has put nothing on the page.
\<close>

lemma remote_failure_propagates:
  assumes "secrets E ''AI21_API_KEY'' = Some key"
    and "build_request (plans_data E) question selected = Inr req"
    and "create E key req = Inl e"
    and "selected \<noteq> []"
  shows "compare_plans E True selected question = \<lparr> rendered = [], calls = [req], raised = Some e \<rparr>"
  using assms by (simp add: compare_plans_def run_jamba_query_def)

text \<open>
  Claim C4 says that a failure of the remote call is caught where the call is made
  and shown to the user as a \<open>no response\<close> notice, without a retry. The script holds
  that notice (lines 159-160, \<open>No response from Jamba-1.5-Large.\<close>), but a failed call
  does not reach it. The run below is the code at a failing call: the API key is
  there, one plan is selected, Compare is pressed, and the service answers the request
  with an error. The request is sent once, the exception ends the run, and the page
  shows nothing: no notice, no result, no \<open>Comparison complete!\<close>.
\<close>

theorem remote_failure_uncaught:
  "compare_plans
     \<lparr> plans_data = [(''A'', ''text a'')], secrets = (\<lambda>name. Some ''key''),
       create = (\<lambda>key req. Inl APIError) \<rparr>
     True [''A''] ''Which?'' =
   \<lparr> rendered = [],
     calls = [\<lparr> messages =
               [\<lparr> role = ''system'', content = system_content \<rparr>,
                \<lparr> role = ''user'',
                  content = ''Which? <plan name='' @ [dquote] @ ''A'' @ [dquote] @ ''>text a</plan>'' \<rparr>],
             model = ''jamba-1.5-large'', temperature = 3 / 10, max_tokens = 5000 \<rparr>],
     raised = Some APIError \<rparr>"
  by (simp add: compare_plans_def run_jamba_query_def build_request_def user_content_def
      concatenated_details_def bindE_def plan_segment_def)

text \<open>
  The branch that holds the notice is taken when \<open>run_jamba_query\<close> returns an empty
  value, and \<open>run_jamba_query\<close> returns what \<open>json.dumps\<close> wrote for a dictionary or
  does not return: the text of a dictionary starts with a brace.
\<close>

lemma no_response_branch_not_taken:
  assumes "run_jamba_query E question plan_names = (sent, Inr jamba_response)"
  shows "jamba_response \<noteq> []"
  using assms
  by (auto simp add: run_jamba_query_def split: option.splits sum.splits)

section \<open>The decoder reads what the encoder wrote\<close>

subsection \<open>Strings\<close>

lemma hex_val_hex_char: "d < 16 \<Longrightarrow> hex_val (hex_char d) = Some d"
  by (auto simp add: hex_val_def hex_char_def Let_def)

lemma decode_u00: 
  "n < 256 \<Longrightarrow> decode_uXXXX CHR ''0'' CHR ''0'' (hex_char (n div 16)) (hex_char (n mod 16)) = Some n"
proof -
  assume "n < 256"
  then have "n div 16 < 16" by simp
  moreover have "n mod 16 < 16" by simp
  moreover have "hex_val CHR ''0'' = Some 0" by (simp add: hex_val_def)
  ultimately show ?thesis
    by (simp add: decode_uXXXX_def hex_val_hex_char)
qed

lemma scanstring_quote: "scanstring (dquote # t) = Inr ([], t)"
  by (cases t) simp_all

lemma scanstring_plain:
  "c \<noteq> dquote \<Longrightarrow> c \<noteq> bslash \<Longrightarrow> 32 \<le> (of_char c :: nat) \<Longrightarrow> t \<noteq> [] \<Longrightarrow>
   scanstring (c # t) = cons_char c (scanstring t)"
  by (cases t) simp_all

lemma scanstring_escape:
  "unescape e = Some ch \<Longrightarrow> e \<noteq> CHR ''u'' \<Longrightarrow>
   scanstring (bslash # e # t) = cons_char ch (scanstring t)"
  by (simp add: bslash_def dquote_def)

lemma scanstring_unicode:
  "decode_uXXXX a b c d = Some n \<Longrightarrow> n < 256 \<Longrightarrow>
   scanstring (bslash # CHR ''u'' # a # b # c # d # t) = cons_char (char_of n) (scanstring t)"
  by (simp add: bslash_def dquote_def)

lemma char_eq_of_char: "(of_char c :: nat) = of_char d \<Longrightarrow> c = d"
  by simp

lemma scanstring_encode_char:
  "t \<noteq> [] \<Longrightarrow> scanstring (encode_char c @ t) = cons_char c (scanstring t)"
proof -
  assume t: "t \<noteq> []"
  let ?n = "of_char c :: nat"
  have lt: "?n < 256" by simp
  consider (q) "c = dquote" | (b) "c = bslash"
    | (n10) "?n = 10" | (n13) "?n = 13" | (n9) "?n = 9" | (n8) "?n = 8" | (n12) "?n = 12"
    | (u) "c \<noteq> dquote" "c \<noteq> bslash" "?n \<noteq> 10" "?n \<noteq> 13" "?n \<noteq> 9" "?n \<noteq> 8" "?n \<noteq> 12"
          "?n < 32 \<or> 126 < ?n"
    | (p) "c \<noteq> dquote" "c \<noteq> bslash" "32 \<le> ?n" "?n \<le> 126"
    by linarith
  then show ?thesis
  proof cases
    case q
    then show ?thesis
      using scanstring_escape [of dquote dquote t]
      by (simp add: encode_char_def unescape_def dquote_def)
  next
    case b
    then show ?thesis
      using scanstring_escape [of bslash bslash t]
      by (simp add: encode_char_def unescape_def dquote_def bslash_def)
  next
    case n10
    then have "c = CHR 0x0A" using char_eq_of_char [of c "CHR 0x0A"] by simp
    then show ?thesis
      using scanstring_escape [of "CHR ''n''" "CHR 0x0A" t]
      by (simp add: encode_char_def unescape_def dquote_def bslash_def)
  next
    case n13
    then have "c = CHR 0x0D" using char_eq_of_char [of c "CHR 0x0D"] by simp
    then show ?thesis
      using scanstring_escape [of "CHR ''r''" "CHR 0x0D" t]
      by (simp add: encode_char_def unescape_def dquote_def bslash_def)
  next
    case n9
    then have "c = CHR 0x09" using char_eq_of_char [of c "CHR 0x09"] by simp
    then show ?thesis
      using scanstring_escape [of "CHR ''t''" "CHR 0x09" t]
      by (simp add: encode_char_def unescape_def dquote_def bslash_def)
  next
    case n8
    then have "c = CHR 0x08" using char_eq_of_char [of c "CHR 0x08"] by simp
    then show ?thesis
      using scanstring_escape [of "CHR ''b''" "CHR 0x08" t]
      by (simp add: encode_char_def unescape_def dquote_def bslash_def)
  next
    case n12
    then have "c = CHR 0x0C" using char_eq_of_char [of c "CHR 0x0C"] by simp
    then show ?thesis
      using scanstring_escape [of "CHR ''f''" "CHR 0x0C" t]
      by (simp add: encode_char_def unescape_def dquote_def bslash_def)
  next
    case u
    have "encode_char c = [bslash, CHR ''u'', CHR ''0'', CHR ''0'', hex_char (?n div 16), hex_char (?n mod 16)]"
      using u by (simp add: encode_char_def Let_def)
    then show ?thesis
      using scanstring_unicode [OF decode_u00 [OF lt] lt, of t] by simp
  next
    case p
    then have "encode_char c = [c]"
      by (auto simp add: encode_char_def Let_def)
    then show ?thesis
      using scanstring_plain [of c t] p t by simp
  qed
qed

lemma scanstring_encoded:
  "scanstring (concat (map encode_char s) @ dquote # rest) = Inr (s, rest)"
proof (induction s)
  case Nil
  show ?case by (simp add: scanstring_quote)
next
  case (Cons c s)
  have "scanstring (encode_char c @ (concat (map encode_char s) @ dquote # rest)) =
        cons_char c (scanstring (concat (map encode_char s) @ dquote # rest))"
    by (rule scanstring_encode_char) simp
  then show ?case using Cons.IH by (simp add: cons_char_def)
qed


subsection \<open>Integers\<close>

lemma digit_char_props: "d < 10 \<Longrightarrow> is_digit (digit_char d) \<and> digit_val (digit_char d) = d"
  by (simp add: is_digit_def digit_char_def digit_val_def)

lemma digit_char_zero: "d < 10 \<Longrightarrow> (digit_char d = CHR ''0'') = (d = 0)"
proof -
  assume d: "d < 10"
  have "(of_char (digit_char d) :: nat) = 48 + d"
    using d by (simp add: digit_char_def)
  moreover have "(of_char CHR ''0'' :: nat) = 48" by simp
  ultimately show ?thesis by (metis add_cancel_right_right of_char_eq_iff)
qed

lemma str_of_nat_digits: "list_all is_digit (str_of_nat n) \<and> str_of_nat n \<noteq> []"
proof (induction n rule: str_of_nat.induct)
  case (1 n)
  show ?case
  proof (cases "n < 10")
    case True
    then show ?thesis
      by (simp add: str_of_nat.simps [of n] digit_char_props)
  next
    case False
    moreover have "n mod 10 < 10" by simp
    ultimately show ?thesis using 1
      by (simp add: str_of_nat.simps [of n] digit_char_props)
  qed
qed

lemma nat_of_digits_snoc: "nat_of_digits (ds @ [d]) = 10 * nat_of_digits ds + digit_val d"
  by (simp add: nat_of_digits_def)

lemma nat_of_digits_str_of_nat: "nat_of_digits (str_of_nat n) = n"
proof (induction n rule: str_of_nat.induct)
  case (1 n)
  show ?case
  proof (cases "n < 10")
    case True
    then show ?thesis
      by (simp add: str_of_nat.simps [of n] nat_of_digits_def digit_char_props)
  next
    case False
    moreover have "n mod 10 < 10" by simp
    ultimately show ?thesis using 1
      by (simp add: str_of_nat.simps [of n] nat_of_digits_snoc digit_char_props)
  qed
qed

lemma str_of_nat_hd: "hd (str_of_nat n) = CHR ''0'' \<Longrightarrow> str_of_nat n = ''0''"
proof (induction n rule: str_of_nat.induct)
  case (1 n)
  show ?case
  proof (cases "n < 10")
    case True
    then have "n = 0" using 1(2)
      by (simp add: str_of_nat.simps [of n] digit_char_zero)
    then show ?thesis
      using digit_char_zero [of 0] by (simp add: str_of_nat.simps [of 0])
  next
    case False
    have ne: "str_of_nat (n div 10) \<noteq> []" by (simp add: str_of_nat_digits)
    have "hd (str_of_nat (n div 10)) = CHR ''0''"
      using False 1(2) ne by (simp add: str_of_nat.simps [of n])
    then have "str_of_nat (n div 10) = ''0''" using 1(1) False by simp
    then have "nat_of_digits (str_of_nat (n div 10)) = 0"
      by (simp add: nat_of_digits_def digit_val_def)
    then have "n div 10 = 0" by (simp add: nat_of_digits_str_of_nat)
    then show ?thesis using False by simp
  qed
qed

lemma takeWhile_digits:
  "list_all is_digit ds \<Longrightarrow> ends_number rest \<Longrightarrow> takeWhile is_digit (ds @ rest) = ds"
  by (cases rest) (auto simp add: ends_number_def list_all_iff)

lemma ends_number_no_float: "ends_number rest \<Longrightarrow> \<not> starts_frac rest \<and> \<not> starts_exp rest"
  by (auto simp add: ends_number_def starts_frac_def starts_exp_def split: list.splits)

lemma match_number_digits:
  assumes "ends_number rest"
  shows "match_number (str_of_nat n @ rest) = IntLit (int n) rest"
proof -
  obtain d ds where ds: "str_of_nat n = d # ds"
    using str_of_nat_digits [of n] by (cases "str_of_nat n") auto
  have dig: "is_digit d" "list_all is_digit ds"
    using str_of_nat_digits [of n] ds by auto
  have notminus: "d \<noteq> CHR ''-''"
    using dig(1) by (auto simp add: is_digit_def)
  have val: "nat_of_digits (d # ds) = n"
    using nat_of_digits_str_of_nat [of n] ds by simp
  show ?thesis
  proof (cases "d = CHR ''0''")
    case True
    then have "ds = []" using str_of_nat_hd [of n] ds by simp
    then show ?thesis using True ds val ends_number_no_float [OF assms] dig notminus
      by (simp add: match_number_def Let_def)
  next
    case False
    have "takeWhile is_digit (ds @ rest) = ds"
      using takeWhile_digits [OF dig(2) assms] .
    then show ?thesis using False ds val ends_number_no_float [OF assms] dig notminus
      by (simp add: match_number_def Let_def)
  qed
qed

lemma match_number_str_of_int:
  assumes "ends_number rest"
  shows "match_number (str_of_int i @ rest) = IntLit i rest"
proof (cases "i < 0")
  case True
  obtain d ds where ds: "str_of_nat (nat (- i)) = d # ds"
    using str_of_nat_digits [of "nat (- i)"] by (cases "str_of_nat (nat (- i))") auto
  have dig: "is_digit d" "list_all is_digit ds"
    using str_of_nat_digits [of "nat (- i)"] ds by auto
  have val: "nat_of_digits (d # ds) = nat (- i)"
    using nat_of_digits_str_of_nat [of "nat (- i)"] ds by simp
  show ?thesis
  proof (cases "d = CHR ''0''")
    case z: True
    then have "ds = []" using str_of_nat_hd [of "nat (- i)"] ds by simp
    then show ?thesis using True z ds val ends_number_no_float [OF assms] dig
      by (simp add: match_number_def Let_def str_of_int_def)
  next
    case nz: False
    have "takeWhile is_digit (ds @ rest) = ds"
      using takeWhile_digits [OF dig(2) assms] .
    then show ?thesis using True nz ds val ends_number_no_float [OF assms] dig
      by (simp add: match_number_def Let_def str_of_int_def)
  qed
next
  case False
  then show ?thesis using match_number_digits [OF assms, of "nat i"]
    by (simp add: str_of_int_def)
qed

text \<open>The first character of an encoded number.\<close>

lemma str_of_int_first:
  "\<exists>c cs. str_of_int i = c # cs \<and> (c = CHR ''-'' \<or> is_digit c)"
proof -
  obtain d ds where "str_of_nat (nat \<bar>i\<bar>) = d # ds" "is_digit d"
    using str_of_nat_digits [of "nat \<bar>i\<bar>"] by (cases "str_of_nat (nat \<bar>i\<bar>)") auto
  then show ?thesis
    by (cases "i < 0") (auto simp add: str_of_int_def)
qed

lemma scan_once_int:
  assumes "ends_number rest"
  shows "scan_once n (str_of_int i @ rest) = Inr (PInt i, rest)"
proof -
  obtain c cs where s: "str_of_int i = c # cs" and c: "c = CHR ''-'' \<or> is_digit c"
    using str_of_int_first by blast
  have c1: "c \<noteq> dquote" "c \<noteq> CHR ''{''" "c \<noteq> CHR ''[''" "c \<noteq> CHR ''n''" "c \<noteq> CHR ''t''" "c \<noteq> CHR ''f''"
    using c by (auto simp add: is_digit_def dquote_def)
  have m: "match_number (c # cs @ rest) = IntLit i rest"
    using match_number_str_of_int [OF assms, of i] s by simp
  show ?thesis
    using c1 m by (simp add: s scan_once.simps)
qed


subsection \<open>Arrays and objects\<close>

lemma skip_ws_start: "\<not> is_ws c \<Longrightarrow> skip_ws (c # cs) = c # cs"
  by (simp add: skip_ws_def)

lemma skip_ws_space: "skip_ws (CHR '' '' # s) = skip_ws s"
  by (simp add: skip_ws_def is_ws_def)

lemma str_join_first:
  "x = c # cs \<Longrightarrow> \<exists>t. str_join sep (x # xs) = c # t"
  by (cases xs) simp_all

lemma str_join_Cons2:
  "xs \<noteq> [] \<Longrightarrow> str_join sep (x # xs) = x @ sep @ str_join sep xs"
  by (cases xs) simp_all

text \<open>The first character of an encoded value is no whitespace and no closing bracket.\<close>

lemma dumps_first: "\<exists>c cs. dumps v = c # cs \<and> \<not> is_ws c \<and> c \<noteq> CHR '']''"
proof (cases v)
  case (PInt i)
  obtain c cs where "str_of_int i = c # cs" "c = CHR ''-'' \<or> is_digit c"
    using str_of_int_first by blast
  then show ?thesis using PInt
    by (auto simp add: is_ws_def is_digit_def)
qed (auto simp add: is_ws_def encode_str_def dquote_def)

lemma skip_ws_dumps: "skip_ws (dumps v @ rest) = dumps v @ rest"
  using dumps_first [of v] by (auto simp add: skip_ws_start)

lemma ends_number_after:
  "ends_number (CHR '']'' # rest)" "ends_number (CHR ''}'' # rest)" "ends_number (CHR '','' # rest)"
  "ends_number []"
  by (simp_all add: ends_number_def is_digit_def)

text \<open>The items of an array, after the opening bracket.\<close>

lemma parse_array_items:
  assumes items: "\<And>x n rest. x \<in> set xs \<Longrightarrow> length (dumps x) \<le> n \<Longrightarrow> ends_number rest \<Longrightarrow>
                    scan_once n (dumps x @ rest) = Inr (decoded x, rest)"
    and "xs \<noteq> []"
    and "length (str_join '', '' (map dumps xs)) < n"
  shows "parse_array n (str_join '', '' (map dumps xs) @ CHR '']'' # rest) acc =
           Inr (PList (acc @ map decoded xs), rest)"
  using assms
proof (induction xs arbitrary: n acc)
  case Nil
  then show ?case by simp
next
  case (Cons x xs)
  obtain m where n: "n = Suc m" using Cons.prems(3) by (cases n) auto
  show ?case
  proof (cases "xs = []")
    case True
    have "scan_once m (dumps x @ CHR '']'' # rest) = Inr (decoded x, CHR '']'' # rest)"
      using Cons.prems(1) [of x m "CHR '']'' # rest"] Cons.prems(3) True n
      by (simp add: ends_number_after)
    then show ?thesis using True n
      by (simp add: skip_ws_start is_ws_def)
  next
    case False
    let ?tail = "str_join '', '' (map dumps xs) @ CHR '']'' # rest"
    have len: "length (dumps x) \<le> m" "length (str_join '', '' (map dumps xs)) < m"
      using Cons.prems(3) False n by (simp_all add: str_join_Cons2)
    have "scan_once m (dumps x @ CHR '','' # CHR '' '' # ?tail) =
            Inr (decoded x, CHR '','' # CHR '' '' # ?tail)"
      using Cons.prems(1) [of x m "CHR '','' # CHR '' '' # ?tail"] len
      by (simp add: ends_number_after)
    moreover obtain y ys where ys: "xs = y # ys" using False by (cases xs) auto
    obtain c cs where "dumps y = c # cs" "\<not> is_ws c"
      using dumps_first [of y] by blast
    then obtain t where "str_join '', '' (map dumps xs) = c # t"
      using str_join_first [of "dumps y" c cs "'', ''" "map dumps ys"] ys by auto
    then have "skip_ws ?tail = ?tail"
      using \<open>\<not> is_ws c\<close> by (simp add: skip_ws_start)
    moreover have "parse_array m ?tail (acc @ [decoded x]) =
                     Inr (PList ((acc @ [decoded x]) @ map decoded xs), rest)"
      using Cons.IH [of m "acc @ [decoded x]"] Cons.prems(1) False len by simp
    ultimately show ?thesis using False n
      by (simp add: str_join_Cons2 skip_ws_start skip_ws_space is_ws_def)
  qed
qed

text \<open>The members of an object, after the opening quote of the first key.\<close>

lemma parse_object_members:
  assumes members: "\<And>kv n rest. kv \<in> set kvs \<Longrightarrow> length (dumps (snd kv)) \<le> n \<Longrightarrow> ends_number rest \<Longrightarrow>
                    scan_once n (dumps (snd kv) @ rest) = Inr (decoded (snd kv), rest)"
    and "kvs \<noteq> []"
    and "length (str_join '', '' (map (\<lambda>kv. encode_str (fst kv) @ '': '' @ dumps (snd kv)) kvs)) < n"
  shows "parse_object n
           (tl (str_join '', '' (map (\<lambda>kv. encode_str (fst kv) @ '': '' @ dumps (snd kv)) kvs) @
                CHR ''}'' # rest)) acc =
           Inr (PDict (dict_of_pairs [] (acc @ map (\<lambda>kv. (fst kv, decoded (snd kv))) kvs)), rest)"
  using assms
proof (induction kvs arbitrary: n acc)
  case Nil
  then show ?case by simp
next
  case (Cons kv kvs)
  let ?member = "\<lambda>kv. encode_str (fst kv) @ '': '' @ dumps (snd kv)"
  obtain m where n: "n = Suc m" using Cons.prems(3) by (cases n) auto
  obtain k v where kv: "kv = (k, v)" by (cases kv)
  let ?K = "concat (map encode_char k)"
  show ?case
  proof (cases "kvs = []")
    case True
    have shape: "tl (str_join '', '' (map ?member (kv # kvs)) @ CHR ''}'' # rest) =
                ?K @ dquote # CHR '':'' # CHR '' '' # dumps v @ CHR ''}'' # rest"
      using True kv by (simp add: encode_str_def)
    have "scan_once m (dumps v @ CHR ''}'' # rest) = Inr (decoded v, CHR ''}'' # rest)"
      using Cons.prems(1) [of kv m "CHR ''}'' # rest"] Cons.prems(3) True n kv
      by (simp add: ends_number_after)
    then have "parse_object (Suc m)
                 (?K @ dquote # CHR '':'' # CHR '' '' # dumps v @ CHR ''}'' # rest) acc =
               Inr (PDict (dict_of_pairs [] (acc @ [(k, decoded v)])), rest)"
      by (simp add: scanstring_encoded skip_ws_start skip_ws_space skip_ws_dumps is_ws_def)
    then show ?thesis unfolding shape n using True kv by simp
  next
    case False
    let ?more = "str_join '', '' (map ?member kvs)"
    let ?tail = "?more @ CHR ''}'' # rest"
    have shape: "tl (str_join '', '' (map ?member (kv # kvs)) @ CHR ''}'' # rest) =
                ?K @ dquote # CHR '':'' # CHR '' '' # dumps v @ CHR '','' # CHR '' '' # ?tail"
      using False kv by (simp add: encode_str_def str_join_Cons2)
    have len: "length (dumps v) \<le> m" "length ?more < m"
      using Cons.prems(3) False n kv by (simp_all add: str_join_Cons2)
    have v: "scan_once m (dumps v @ CHR '','' # CHR '' '' # ?tail) =
            Inr (decoded v, CHR '','' # CHR '' '' # ?tail)"
      using Cons.prems(1) [of kv m "CHR '','' # CHR '' '' # ?tail"] len kv
      by (simp add: ends_number_after)
    obtain kv2 more where more: "kvs = kv2 # more" using False by (cases kvs) auto
    obtain t where t: "?more = dquote # t"
      using str_join_first [of "?member kv2" dquote _ "'', ''" "map ?member more"] more
      by (auto simp add: encode_str_def)
    have ws: "skip_ws ?tail = dquote # tl ?tail"
      using t by (simp add: skip_ws_start is_ws_def dquote_def)
    have rec: "parse_object m (tl ?tail) (acc @ [(k, decoded v)]) =
                 Inr (PDict (dict_of_pairs [] ((acc @ [(k, decoded v)]) @
                        map (\<lambda>kv. (fst kv, decoded (snd kv))) kvs)), rest)"
      using Cons.IH [of m "acc @ [(k, decoded v)]"] Cons.prems(1) False len by simp
    have "parse_object (Suc m)
            (?K @ dquote # CHR '':'' # CHR '' '' # dumps v @ CHR '','' # CHR '' '' # ?tail) acc =
          Inr (PDict (dict_of_pairs [] ((acc @ [(k, decoded v)]) @
                        map (\<lambda>kv. (fst kv, decoded (snd kv))) kvs)), rest)"
      using v ws rec
      by (simp add: scanstring_encoded skip_ws_start skip_ws_space skip_ws_dumps is_ws_def)
    then show ?thesis unfolding shape n using kv by simp
  qed
qed

text \<open>
  The decoder reads back what the encoder wrote, with a budget of at least the length
  of the text.
\<close>

lemma scan_once_dumps:
  "length (dumps v) \<le> n \<Longrightarrow> ends_number rest \<Longrightarrow>
   scan_once n (dumps v @ rest) = Inr (decoded v, rest)"
proof (induction v arbitrary: n rest)
  case PNone
  show ?case by (simp add: scan_once.simps dquote_def)
next
  case (PBool b)
  show ?case by (simp add: scan_once.simps dquote_def)
next
  case (PInt i)
  then show ?case by (simp add: scan_once_int)
next
  case (PStr s)
  show ?case by (simp add: scan_once.simps encode_str_def scanstring_encoded)
next
  case (PList xs)
  show ?case
  proof (cases "xs = []")
    case True
    then show ?thesis by (simp add: scan_once.simps dquote_def skip_ws_start is_ws_def)
  next
    case False
    let ?items = "str_join '', '' (map dumps xs) @ CHR '']'' # rest"
    obtain x ys where xs: "xs = x # ys" using False by (cases xs) auto
    obtain c cs where c: "dumps x = c # cs" "\<not> is_ws c" "c \<noteq> CHR '']''"
      using dumps_first [of x] by blast
    then obtain t where t: "str_join '', '' (map dumps xs) = c # t"
      using str_join_first [of "dumps x" c cs "'', ''" "map dumps ys"] xs by auto
    have "parse_array n ?items [] = Inr (PList ([] @ map decoded xs), rest)"
    proof (rule parse_array_items)
      show "xs \<noteq> []" by (rule False)
      show "length (str_join '', '' (map dumps xs)) < n" using PList.prems(1) by simp
      show "scan_once n (dumps x @ rest) = Inr (decoded x, rest)"
        if "x \<in> set xs" "length (dumps x) \<le> n" "ends_number rest" for x n rest
        using PList.IH that by blast
    qed
    then show ?thesis using t c
      by (simp add: scan_once.simps dquote_def skip_ws_start)
  qed
next
  case (PDict kvs)
  let ?member = "\<lambda>kv. encode_str (fst kv) @ '': '' @ dumps (snd kv)"
  show ?case
  proof (cases "kvs = []")
    case True
    then show ?thesis by (simp add: scan_once.simps dquote_def skip_ws_start is_ws_def)
  next
    case False
    let ?members = "str_join '', '' (map ?member kvs) @ CHR ''}'' # rest"
    obtain kv more where kvs: "kvs = kv # more" using False by (cases kvs) auto
    obtain t where t: "str_join '', '' (map ?member kvs) = dquote # t"
      using str_join_first [of "?member kv" dquote _ "'', ''" "map ?member more"] kvs
      by (auto simp add: encode_str_def)
    have "parse_object n (tl ?members) [] =
            Inr (PDict (dict_of_pairs [] ([] @ map (\<lambda>kv. (fst kv, decoded (snd kv))) kvs)), rest)"
    proof (rule parse_object_members)
      show "kvs \<noteq> []" by (rule False)
      show "length (str_join '', '' (map ?member kvs)) < n" using PDict.prems(1) by simp
      show "scan_once n (dumps (snd kv) @ rest) = Inr (decoded (snd kv), rest)"
        if "kv \<in> set kvs" "length (dumps (snd kv)) \<le> n" "ends_number rest" for kv n rest
      proof -
        have "snd kv \<in> Basic_BNFs.snds kv" by (cases kv) simp
        then show ?thesis using PDict.IH that by blast
      qed
    qed
    then show ?thesis using t
      by (simp add: scan_once.simps dquote_def skip_ws_start is_ws_def)
  qed
qed

theorem loads_dumps: "loads (dumps v) = Inr (decoded v)"
  using scan_once_dumps [of v "length (dumps v)" "[]"] skip_ws_dumps [of v "[]"]
  by (simp add: loads_def ends_number_after skip_ws_def)

subsection \<open>Well-formed values\<close>

text \<open>For a value as Python has it, the decoder returns the value the encoder was given.\<close>

lemma dict_of_pairs_distinct:
  "distinct (map fst kvs) \<Longrightarrow> set (map fst kvs) \<inter> fst ` set d = {} \<Longrightarrow>
   dict_of_pairs d kvs = d @ kvs"
proof (induction kvs arbitrary: d)
  case Nil
  show ?case by simp
next
  case (Cons kv kvs)
  obtain k v where kv: "kv = (k, v)" by (cases kv)
  have fresh: "k \<notin> fst ` set d" using Cons.prems kv by auto
  have "set (map fst kvs) \<inter> fst ` set (dict_set d k v) = {}"
    using Cons.prems kv by (auto simp add: dict_set_fresh [OF fresh])
  then show ?case
    using Cons.IH [of "dict_set d k v"] Cons.prems kv
    by (simp add: dict_set_fresh [OF fresh])
qed

lemma decoded_well_formed: "well_formed v \<Longrightarrow> decoded v = v"
proof (induction v)
  case (PList xs)
  then show ?case by (simp add: list_all_iff map_idI)
next
  case (PDict kvs)
  have "map (\<lambda>kv. (fst kv, decoded (snd kv))) kvs = kvs"
  proof (rule map_idI)
    fix kv assume kv: "kv \<in> set kvs"
    have "snd kv \<in> Basic_BNFs.snds kv" by (cases kv) simp
    moreover have "well_formed (snd kv)" using PDict.prems kv by (simp add: list_all_iff)
    ultimately have "decoded (snd kv) = snd kv" using PDict.IH kv by blast
    then show "(fst kv, decoded (snd kv)) = kv" by simp
  qed
  then show ?case using PDict.prems by (simp add: dict_of_pairs_distinct)
qed simp_all

lemma loads_dumps_well_formed: "well_formed v \<Longrightarrow> loads (dumps v) = Inr v"
  by (simp add: loads_dumps decoded_well_formed)

section \<open>The budget of the decoder\<close>

lemma skip_ws_length: "length (skip_ws s) \<le> length s"
  by (simp add: skip_ws_def length_dropWhile_le)

lemma cons_char_Inr:
  "cons_char c r = Inr (str, rest) \<Longrightarrow> \<exists>str'. r = Inr (str', rest)"
  by (auto simp add: cons_char_def split: sum.splits)

lemma cons_char_Inl: "cons_char c r = Inl e \<Longrightarrow> r = Inl e"
  by (auto simp add: cons_char_def split: sum.splits)

lemma scanstring_shorter: "scanstring s = Inr (str, rest) \<Longrightarrow> length rest < length s"
proof (induction s arbitrary: str rule: scanstring.induct)
  case 1
  then show ?case by simp
next
  case (2 c)
  then show ?case by (simp split: if_splits)
next
  case (3 c e es)
  show ?case
  proof (cases "c = dquote")
    case True
    then show ?thesis using 3(4) by simp
  next
    case nq: False
    show ?thesis
    proof (cases "c = bslash")
      case True
      show ?thesis
      proof (cases "e = CHR ''u''")
        case u: True
        then obtain h1 h2 h3 h4 t uni where es: "es = h1 # h2 # h3 # h4 # t"
          and dec: "decode_uXXXX h1 h2 h3 h4 = Some uni" and lt: "uni < 256"
          and r: "cons_char (char_of uni) (scanstring t) = Inr (str, rest)"
          using 3(4) nq True
          by (auto split: list.splits option.splits if_splits)
        obtain str' where "scanstring t = Inr (str', rest)"
          using cons_char_Inr [OF r] by blast
        then have "length rest < length t"
          using 3(1) [OF nq True u es refl refl refl dec lt] by simp
        then show ?thesis using es by simp
      next
        case nu: False
        then obtain ch where un: "unescape e = Some ch"
          and r: "cons_char ch (scanstring es) = Inr (str, rest)"
          using 3(4) nq True by (auto split: option.splits)
        obtain str' where "scanstring es = Inr (str', rest)"
          using cons_char_Inr [OF r] by blast
        then have "length rest < length es"
          using 3(2) [OF nq True nu un] by simp
        then show ?thesis by simp
      qed
    next
      case nb: False
      then have ge: "\<not> (of_char c :: nat) < 32"
        and r: "cons_char c (scanstring (e # es)) = Inr (str, rest)"
        using 3(4) nq by (auto split: if_splits)
      obtain str' where "scanstring (e # es) = Inr (str', rest)"
        using cons_char_Inr [OF r] by blast
      then have "length rest < length (e # es)"
        using 3(3) [OF nq nb ge] by simp
      then show ?thesis by simp
    qed
  qed
qed

lemma scanstring_budget: "scanstring s \<noteq> Inl OutOfFuel"
proof (induction s rule: scanstring.induct)
  case 1
  show ?case by simp
next
  case (2 c)
  show ?case by simp
next
  case (3 c e es)
  show ?case
  proof
    assume a: "scanstring (c # e # es) = Inl OutOfFuel"
    show False
    proof (cases "c = dquote")
      case True
      then show ?thesis using a by simp
    next
      case nq: False
      show ?thesis
      proof (cases "c = bslash")
        case True
        show ?thesis
        proof (cases "e = CHR ''u''")
          case u: True
          then obtain h1 h2 h3 h4 t uni where es: "es = h1 # h2 # h3 # h4 # t"
            and dec: "decode_uXXXX h1 h2 h3 h4 = Some uni" and lt: "uni < 256"
            and r: "cons_char (char_of uni) (scanstring t) = Inl OutOfFuel"
            using a nq True
            by (auto split: list.splits option.splits if_splits)
          then show ?thesis
            using 3(1) [OF nq True u es refl refl refl dec lt] cons_char_Inl [OF r] by simp
        next
          case nu: False
          then obtain ch where un: "unescape e = Some ch"
            and r: "cons_char ch (scanstring es) = Inl OutOfFuel"
            using a nq True by (auto split: option.splits)
          then show ?thesis
            using 3(2) [OF nq True nu un] cons_char_Inl [OF r] by simp
        qed
      next
        case nb: False
        then have ge: "\<not> (of_char c :: nat) < 32"
          and r: "cons_char c (scanstring (e # es)) = Inl OutOfFuel"
          using a nq by (auto split: if_splits)
        then show ?thesis
          using 3(3) [OF nq nb ge] cons_char_Inl [OF r] by simp
      qed
    qed
  qed
qed

lemma match_number_shorter: "match_number s = IntLit i rest \<Longrightarrow> length rest < length s"
  by (auto simp add: match_number_def Let_def split: list.splits if_splits)

lemma within_budget_Inl: "e \<noteq> OutOfFuel \<Longrightarrow> within_budget (Inl e) s"
  by (simp add: within_budget_def)

lemma within_budget_Inr: "length rest < length s \<Longrightarrow> within_budget (Inr (v, rest)) s"
  by (simp add: within_budget_def)

lemma within_budget_longer:
  "within_budget r t \<Longrightarrow> length t \<le> length s \<Longrightarrow> within_budget r s"
  by (auto simp add: within_budget_def split: sum.splits)

lemma within_budget_scanstring:
  "within_budget (case scanstring cs of Inl e \<Rightarrow> Inl e | Inr (str, r) \<Rightarrow> Inr (PStr str, r)) (c # cs)"
proof (cases "scanstring cs")
  case (Inl e)
  then show ?thesis using scanstring_budget [of cs] by (simp add: within_budget_def)
next
  case (Inr p)
  then show ?thesis using scanstring_shorter [of cs "fst p" "snd p"]
    by (cases p) (simp add: within_budget_def)
qed

text \<open>A value, given the budget for the items and members inside it.\<close>

lemma scan_once_budget:
  assumes arr: "\<And>t acc. length t < n \<Longrightarrow> within_budget (parse_array n t acc) t"
    and obj: "\<And>t pairs. length t < n \<Longrightarrow> within_budget (parse_object n t pairs) t"
    and len: "length s \<le> n"
  shows "within_budget (scan_once n s) s"
proof (cases s)
  case Nil
  then show ?thesis by (simp add: scan_once.simps within_budget_def)
next
  case (Cons c cs)
  have ws: "length (skip_ws cs) \<le> length cs" by (rule skip_ws_length)
  consider (str) "c = dquote"
    | (object) "c \<noteq> dquote" "c = CHR ''{''"
    | (array) "c \<noteq> dquote" "c \<noteq> CHR ''{''" "c = CHR ''[''"
    | (other) "c \<noteq> dquote" "c \<noteq> CHR ''{''" "c \<noteq> CHR ''[''"
    by blast
  then show ?thesis
  proof cases
    case str
    then show ?thesis using Cons within_budget_scanstring [of cs c]
      by (simp add: scan_once.simps)
  next
    case object
    show ?thesis
    proof (cases "skip_ws cs")
      case Nil
      then show ?thesis using Cons object by (simp add: scan_once.simps within_budget_def)
    next
      case (Cons d r)
      have r: "length r < length cs" using ws Cons by simp
      then have "length r < n" using len \<open>s = c # cs\<close> by simp
      then have "within_budget (parse_object n r []) s"
        using obj [of r "[]"] r \<open>s = c # cs\<close> within_budget_longer [of _ r s] by simp
      then show ?thesis using Cons object r \<open>s = c # cs\<close>
        by (simp add: scan_once.simps within_budget_def)
    qed
  next
    case array
    show ?thesis
    proof (cases "skip_ws cs")
      case Nil
      then show ?thesis using Cons array by (simp add: scan_once.simps within_budget_def)
    next
      case (Cons d r)
      have r: "length (d # r) \<le> length cs" using ws Cons by simp
      then have "length (d # r) < n" using len \<open>s = c # cs\<close> by simp
      then have "within_budget (parse_array n (d # r) []) s"
        using arr [of "d # r" "[]"] r \<open>s = c # cs\<close> within_budget_longer [of _ "d # r" s] by simp
      then show ?thesis using Cons array r \<open>s = c # cs\<close>
        by (simp add: scan_once.simps within_budget_def)
    qed
  next
    case other
    show ?thesis
    proof (cases "match_number s")
      case NoNumber
      then show ?thesis using Cons other
        by (simp add: scan_once.simps within_budget_def diff_less_Suc)
    next
      case (IntLit i r)
      then show ?thesis using Cons other match_number_shorter [of s i r]
        by (simp add: scan_once.simps within_budget_def diff_less_Suc)
    next
      case FloatLit
      then show ?thesis using Cons other
        by (simp add: scan_once.simps within_budget_def diff_less_Suc)
    qed
  qed
qed

text \<open>The items of an array, given the budget for one item less.\<close>

lemma parse_array_budget:
  assumes scan: "\<And>t. length t \<le> m \<Longrightarrow> within_budget (scan_once m t) t"
    and arr: "\<And>t acc. length t < m \<Longrightarrow> within_budget (parse_array m t acc) t"
    and len: "length s < Suc m"
  shows "within_budget (parse_array (Suc m) s acc) s"
proof (cases "scan_once m s")
  case (Inl e)
  then show ?thesis using scan [of s] len by (simp add: within_budget_def)
next
  case (Inr p)
  obtain v r where p: "p = (v, r)" by (cases p)
  have r: "length r < length s" using scan [of s] len Inr p by (simp add: within_budget_def)
  show ?thesis
  proof (cases "skip_ws r")
    case Nil
    then show ?thesis using Inr p by (simp add: within_budget_def)
  next
    case (Cons d u)
    have u: "length u < length r" using skip_ws_length [of r] Cons by simp
    have "length (skip_ws u) \<le> length u" by (rule skip_ws_length)
    then have "within_budget (parse_array m (skip_ws u) (acc @ [v])) s"
      using arr [of "skip_ws u" "acc @ [v]"] u r len
        within_budget_longer [of _ "skip_ws u" s] by simp
    then show ?thesis using Inr p Cons u r
      by (simp add: within_budget_def)
  qed
qed

text \<open>The members of an object, given the budget for one member less.\<close>

lemma parse_object_budget:
  assumes scan: "\<And>t. length t \<le> m \<Longrightarrow> within_budget (scan_once m t) t"
    and obj: "\<And>t pairs. length t < m \<Longrightarrow> within_budget (parse_object m t pairs) t"
    and len: "length s < Suc m"
  shows "within_budget (parse_object (Suc m) s pairs) s"
proof (cases "scanstring s")
  case (Inl e)
  then show ?thesis using scanstring_budget [of s] by (simp add: within_budget_def)
next
  case (Inr p)
  obtain key r where p: "p = (key, r)" by (cases p)
  have r: "length r < length s" using scanstring_shorter [of s key r] Inr p by simp
  show ?thesis
  proof (cases "skip_ws r")
    case Nil
    then show ?thesis using Inr p by (simp add: within_budget_def)
  next
    case (Cons d u)
    have u: "length (skip_ws u) < length s"
      using skip_ws_length [of r] skip_ws_length [of u] Cons r by simp
    show ?thesis
    proof (cases "scan_once m (skip_ws u)")
      case (Inl e)
      then show ?thesis using scan [of "skip_ws u"] u len \<open>scanstring s = Inr p\<close> p Cons
        by (simp add: within_budget_def)
    next
      case v: (Inr q)
      obtain v r2 where q: "q = (v, r2)" by (cases q)
      have r2: "length r2 < length s"
        using scan [of "skip_ws u"] u len v q by (simp add: within_budget_def)
      show ?thesis
      proof (cases "skip_ws r2")
        case Nil
        then show ?thesis using \<open>scanstring s = Inr p\<close> p Cons v q
          by (simp add: within_budget_def)
      next
        case c2: (Cons d2 u2)
        have u2: "length u2 < length s" using skip_ws_length [of r2] c2 r2 by simp
        show ?thesis
        proof (cases "skip_ws u2")
          case Nil
          then show ?thesis using \<open>scanstring s = Inr p\<close> p Cons v q c2 u2
            by (simp add: within_budget_def)
        next
          case c3: (Cons d3 u3)
          have u3: "length u3 < length s" using skip_ws_length [of u2] c3 u2 by simp
          then have "within_budget (parse_object m u3 (pairs @ [(key, v)])) s"
            using obj [of u3 "pairs @ [(key, v)]"] len
              within_budget_longer [of _ u3 s] by simp
          then show ?thesis using \<open>scanstring s = Inr p\<close> p Cons v q c2 u2 c3
            by (simp add: within_budget_def)
        qed
      qed
    qed
  qed
qed

lemma decoder_budget:
  "(\<forall>s. length s \<le> n \<longrightarrow> within_budget (scan_once n s) s) \<and>
   (\<forall>s acc. length s < n \<longrightarrow> within_budget (parse_array n s acc) s) \<and>
   (\<forall>s pairs. length s < n \<longrightarrow> within_budget (parse_object n s pairs) s)"
proof (induction n)
  case 0
  have "within_budget (scan_once 0 s) s" if "length s \<le> 0" for s
    by (rule scan_once_budget) (use that in simp_all)
  then show ?case by simp
next
  case (Suc m)
  have arr: "within_budget (parse_array (Suc m) s acc) s" if "length s < Suc m" for s acc
    by (rule parse_array_budget) (use Suc that in simp_all)
  have obj: "within_budget (parse_object (Suc m) s pairs) s" if "length s < Suc m" for s pairs
    by (rule parse_object_budget) (use Suc that in simp_all)
  have "within_budget (scan_once (Suc m) s) s" if "length s \<le> Suc m" for s
    by (rule scan_once_budget) (use arr obj that in simp_all)
  with arr obj show ?case by simp
qed

text \<open>
  The budget \<open>loads\<close> starts with is never used up: on every input the decoder
  returns a value, refuses the input, or meets a feature left out.
\<close>

lemma loads_budget: "loads s \<noteq> Inl OutOfFuel"
proof -
  have "within_budget (scan_once (length s) (skip_ws s)) (skip_ws s)"
    using decoder_budget [of "length s"] skip_ws_length [of s] by blast
  then show ?thesis
    by (auto simp add: loads_def within_budget_def split: sum.splits if_splits)
qed

section \<open>The response of a query that returned\<close>

lemma py_contains_error: "py_contains v key = Inl e \<Longrightarrow> e = TypeError"
  by (cases v) auto

lemma py_getitem_error: "py_getitem v key = Inl e \<Longrightarrow> e = TypeError \<or> e = KeyError"
  by (cases v) (auto split: option.splits)

lemma py_len_error: "py_len v = Inl e \<Longrightarrow> e = TypeError"
  by (cases v) auto

lemma py_first_error: "py_first v = Inl e \<Longrightarrow> e = TypeError \<or> e = KeyError \<or> e = IndexError"
  by (cases v) (auto split: list.splits)

text \<open>The extraction raises no \<open>JSONDecodeError\<close>: only the decoder does.\<close>

lemma extract_message_error: "extract_message parsed \<noteq> Inl JSONDecodeError"
proof
  assume "extract_message parsed = Inl JSONDecodeError"
  then show False
    unfolding extract_message_def bindE_def
    by (auto split: sum.splits if_splits
        dest: py_contains_error py_getitem_error py_len_error py_first_error)
qed

lemma try_body_decoded:
  assumes "loads raw = Inr parsed"
  shows "snd (try_body raw) \<noteq> Some JSONDecodeError \<and> Error notice \<notin> set (fst (try_body raw))"
  using assms extract_message_error [of parsed]
  by (auto simp add: try_body_def try_body_with_def escape_value_def split: sum.splits pyval.splits)

lemma render_decoded:
  assumes "raw \<noteq> []" and "loads raw = Inr parsed"
  shows "render raw = try_body raw"
proof -
  obtain shown ended where r: "try_body_with loads raw = (shown, ended)"
    by (cases "try_body_with loads raw")
  then have "ended \<noteq> Some JSONDecodeError"
    using try_body_decoded [OF assms(2)] by (simp add: try_body_def)
  then show ?thesis using assms(1) r
    by (simp add: render_def render_with_def try_body_def split: option.splits py_error.splits)
qed

lemma dumps_dict_nonempty: "dumps (PDict response) \<noteq> []"
  by simp

text \<open>
  When \<open>run_jamba_query\<close> returns, the API key was there, the request was built and
  sent once, the service returned a response, and the string returned is what the
  encoder writes for the dictionary of that response.
\<close>

lemma run_jamba_query_returned:
  assumes "run_jamba_query E question plan_names = (sent, Inr jamba_response)"
  shows "\<exists>key req response.
           secrets E ''AI21_API_KEY'' = Some key \<and>
           build_request (plans_data E) question plan_names = Inr req \<and>
           create E key req = Inr response \<and>
           sent = [req] \<and>
           jamba_response = dumps (PDict response)"
  using assms
  by (auto simp add: run_jamba_query_def split: option.splits sum.splits)

text \<open>
  For a response whose values are \<open>None\<close>, truth values, integers, strings of code
  points below 256, lists and dictionaries (the values of this development: no
  floats), the decoder accepts the string returned. So the renderer runs the body of
  the \<open>try\<close> statement to its end or to an exception other than \<open>JSONDecodeError\<close>,
  and puts neither the notice \<open>No response from Jamba-1.5-Large.\<close> nor the notice
  \<open>Failed to parse JSON response.\<close> on the page.
\<close>

lemma returned_response_is_decoded:
  assumes "run_jamba_query E question plan_names = (sent, Inr jamba_response)"
  shows "(\<exists>key req response.
            secrets E ''AI21_API_KEY'' = Some key \<and>
            build_request (plans_data E) question plan_names = Inr req \<and>
            create E key req = Inr response \<and>
            sent = [req] \<and>
            jamba_response = dumps (PDict response) \<and>
            loads jamba_response = Inr (decoded (PDict response))) \<and>
         jamba_response \<noteq> [] \<and>
         render jamba_response = try_body jamba_response \<and>
         snd (render jamba_response) \<noteq> Some JSONDecodeError \<and>
         Error ''No response from Jamba-1.5-Large.'' \<notin> set (fst (render jamba_response)) \<and>
         Error ''Failed to parse JSON response. Raw response:'' \<notin> set (fst (render jamba_response))"
proof -
  obtain key req response where c: "secrets E ''AI21_API_KEY'' = Some key"
      "build_request (plans_data E) question plan_names = Inr req"
      "create E key req = Inr response" "sent = [req]"
    and d: "jamba_response = dumps (PDict response)"
    using run_jamba_query_returned [OF assms] by blast
  have l: "loads jamba_response = Inr (decoded (PDict response))"
    unfolding d by (rule loads_dumps)
  have ne: "jamba_response \<noteq> []"
    unfolding d by (rule dumps_dict_nonempty)
  have r: "render jamba_response = try_body jamba_response"
    using render_decoded [OF ne l] .
  have ex: "\<exists>key req response.
            secrets E ''AI21_API_KEY'' = Some key \<and>
            build_request (plans_data E) question plan_names = Inr req \<and>
            create E key req = Inr response \<and>
            sent = [req] \<and>
            jamba_response = dumps (PDict response) \<and>
            loads jamba_response = Inr (decoded (PDict response))"
    using c d l by blast
  have no_decode_error: "snd (render jamba_response) \<noteq> Some JSONDecodeError"
    and no_notice: "Error notice \<notin> set (fst (render jamba_response))" for notice
    using try_body_decoded [OF l, of notice] r by simp_all
  from ex ne r no_decode_error no_notice show ?thesis by blast
qed

text \<open>
  So, for such responses, no run of the Compare block shows either notice, whatever
  the surroundings, the selection and the question.
\<close>

lemma notices_never_shown:
  "Error ''No response from Jamba-1.5-Large.'' \<notin> set (rendered (compare_plans E button selected question)) \<and>
   Error ''Failed to parse JSON response. Raw response:'' \<notin>
     set (rendered (compare_plans E button selected question))"
proof (cases "run_jamba_query E question selected")
  case (Pair sent result)
  show ?thesis
  proof (cases result)
    case (Inl e)
    then show ?thesis using Pair by (simp add: compare_plans_def)
  next
    case (Inr jamba_response)
    obtain response where d: "jamba_response = dumps (PDict response)"
      using run_jamba_query_returned [of E question selected sent jamba_response] Pair Inr by blast
    have l: "loads jamba_response = Inr (decoded (PDict response))"
      unfolding d by (rule loads_dumps)
    have ne: "jamba_response \<noteq> []"
      unfolding d by (rule dumps_dict_nonempty)
    have r: "render jamba_response = try_body jamba_response"
      using render_decoded [OF ne l] .
    obtain shown ended where t: "try_body jamba_response = (shown, ended)"
      by (cases "try_body jamba_response")
    have "Error notice \<notin> set shown" for notice
      using try_body_decoded [OF l, of notice] t by simp
    then show ?thesis using Pair Inr r t
      by (simp add: compare_plans_def split: option.splits)
  qed
qed

end
